theory Spec2Isabelle
  imports Main "HOL-Library.Sublist"
begin

section \<open>Go strings and the library functions the program calls\<close>

text \<open>
  A Go string is a sequence of bytes, and a \<^typ>\<open>char\<close> of HOL is one byte, so a Go
  string is a \<^typ>\<open>string\<close> and \<open>[]byte(s)\<close> and \<open>string(b)\<close> are the identity.
  A rune is an \<open>int32\<close>; it is modelled as an \<^typ>\<open>int\<close>, and every rune that
  decoding produces is shown to be a valid rune, between 0 and \<open>0x10FFFF\<close>.
\<close>

type_synonym rune = int

abbreviation byte :: "char \<Rightarrow> nat" where
  "byte c \<equiv> of_char c"

subsection \<open>Package unicode/utf8\<close>

definition RuneError :: rune where
  "RuneError = 0xFFFD"

definition RuneSelf :: nat where
  "RuneSelf = 0x80"

definition MaxRune :: rune where
  "MaxRune = 0x10FFFF"

text \<open>\<open>utf8.ValidRune\<close>: the rune is in range and not a surrogate half.\<close>

definition ValidRune :: "rune \<Rightarrow> bool" where
  "ValidRune r = ((0 \<le> r \<and> r < 0xD800) \<or> (0xDFFF < r \<and> r \<le> MaxRune))"

text \<open>
  The table \<open>first\<close> of package utf8 together with \<open>acceptRanges\<close>: for a lead byte of
  a multi-byte encoding, the size of the encoding and the range accepted for the second
  byte. Every other byte at or above \<open>RuneSelf\<close> is invalid (\<open>xx\<close> in the table).
\<close>

definition utf8_first :: "nat \<Rightarrow> (nat \<times> nat \<times> nat) option" where
  "utf8_first b =
     (if 0xC2 \<le> b \<and> b \<le> 0xDF then Some (2, 0x80, 0xBF)
      else if b = 0xE0 then Some (3, 0xA0, 0xBF)
      else if 0xE1 \<le> b \<and> b \<le> 0xEC then Some (3, 0x80, 0xBF)
      else if b = 0xED then Some (3, 0x80, 0x9F)
      else if 0xEE \<le> b \<and> b \<le> 0xEF then Some (3, 0x80, 0xBF)
      else if b = 0xF0 then Some (4, 0x90, 0xBF)
      else if 0xF1 \<le> b \<and> b \<le> 0xF3 then Some (4, 0x80, 0xBF)
      else if b = 0xF4 then Some (4, 0x80, 0x8F)
      else None)"

text \<open>\<open>utf8.DecodeRuneInString\<close>: the first rune of the string and its width in bytes.\<close>

fun DecodeRuneInString :: "string \<Rightarrow> rune \<times> nat" where
  "DecodeRuneInString [] = (RuneError, 0)"
| "DecodeRuneInString (c0 # s) =
     (let s0 = byte c0 in
      if s0 < RuneSelf then (int s0, 1)
      else case utf8_first s0 of
        None \<Rightarrow> (RuneError, 1)
      | Some (sz, lo, hi) \<Rightarrow>
          if Suc (length s) < sz then (RuneError, 1)
          else let s1 = byte (s ! 0) in
            if s1 < lo \<or> hi < s1 then (RuneError, 1)
            else if sz \<le> 2 then (int (s0 mod 32 * 64 + s1 mod 64), 2)
            else let s2 = byte (s ! 1) in
              if s2 < 0x80 \<or> 0xBF < s2 then (RuneError, 1)
              else if sz \<le> 3
                then (int (s0 mod 16 * 4096 + s1 mod 64 * 64 + s2 mod 64), 3)
              else let s3 = byte (s ! 2) in
                if s3 < 0x80 \<or> 0xBF < s3 then (RuneError, 1)
                else (int (s0 mod 8 * 262144 + s1 mod 64 * 4096
                           + s2 mod 64 * 64 + s3 mod 64), 4))"

text \<open>\<open>utf8.RuneStart\<close>: the byte is not a continuation byte.\<close>

definition RuneStart :: "nat \<Rightarrow> bool" where
  "RuneStart b = (b div 64 \<noteq> 2)"

text \<open>A string is at a rune boundary when it is empty or its first byte starts a rune.\<close>

definition at_boundary :: "string \<Rightarrow> bool" where
  "at_boundary q = (case q of [] \<Rightarrow> True | d # _ \<Rightarrow> RuneStart (byte d))"

text \<open>
  The loop \<open>for start--; start >= lim; start-- { if RuneStart(s[start]) { break } }\<close>
  of \<open>utf8.DecodeLastRuneInString\<close>, entered with \<open>start\<close> already decremented. The
  indices are Go ints: \<open>start\<close> may leave the loop as \<open>-1\<close>.
\<close>

function scan_start :: "string \<Rightarrow> int \<Rightarrow> int \<Rightarrow> int" where
  "scan_start s start lim =
     (if start < lim then start
      else if RuneStart (byte (s ! nat start)) then start
      else scan_start s (start - 1) lim)"
  by pat_completeness auto
termination
  by (relation "measure (\<lambda>(s, start, lim). nat (start - lim + 1))") auto

declare scan_start.simps [simp del]

text \<open>\<open>utf8.DecodeLastRuneInString\<close>: the last rune of the string and its width.\<close>

definition DecodeLastRuneInString :: "string \<Rightarrow> rune \<times> nat" where
  "DecodeLastRuneInString s =
     (let end = int (length s) in
      if end = 0 then (RuneError, 0)
      else if byte (s ! nat (end - 1)) < RuneSelf then (int (byte (s ! nat (end - 1))), 1)
      else
        let lim = max (end - 4) 0;
            start = scan_start s (end - 2) lim;
            start = (if start < 0 then 0 else start);
            (r, width) = DecodeRuneInString (drop (nat start) s)
        in if start + int width \<noteq> end then (RuneError, 1) else (r, width))"

text \<open>
  \<open>utf8.AppendRune\<close>, as the bytes it appends. A rune outside the Unicode range or
  inside the surrogate range is written as \<open>RuneError\<close>.
\<close>

definition EncodeRune :: "rune \<Rightarrow> string" where
  "EncodeRune r =
     (let n = nat r in
      if 0 \<le> r \<and> r \<le> 0x7F then [char_of n]
      else if 0 \<le> r \<and> r \<le> 0x7FF then [char_of (0xC0 + n div 64), char_of (0x80 + n mod 64)]
      else if r < 0 \<or> MaxRune < r \<or> (0xD800 \<le> r \<and> r \<le> 0xDFFF)
        then [char_of (0xEF :: nat), char_of (0xBF :: nat), char_of (0xBD :: nat)]
      else if r \<le> 0xFFFF
        then [char_of (0xE0 + n div 4096), char_of (0x80 + n div 64 mod 64),
              char_of (0x80 + n mod 64)]
      else [char_of (0xF0 + n div 262144), char_of (0x80 + n div 4096 mod 64),
            char_of (0x80 + n div 64 mod 64), char_of (0x80 + n mod 64)])"

subsection \<open>Package unicode\<close>

text \<open>
  \<open>unicode.IsSpace\<close>: the Latin-1 switch of the function, and beyond Latin-1 the
  \<open>White_Space\<close> range table.
\<close>

definition IsSpace :: "rune \<Rightarrow> bool" where
  "IsSpace r =
     (if 0 \<le> r \<and> r \<le> 0xFF
      then r = 0x09 \<or> r = 0x0A \<or> r = 0x0B \<or> r = 0x0C \<or> r = 0x0D \<or> r = 0x20
           \<or> r = 0x85 \<or> r = 0xA0
      else r = 0x1680 \<or> (0x2000 \<le> r \<and> r \<le> 0x200A) \<or> r = 0x2028 \<or> r = 0x2029
           \<or> r = 0x202F \<or> r = 0x205F \<or> r = 0x3000)"

text \<open>
  \<open>unicode.ToLower\<close>. The function answers for ASCII itself and looks every other
  rune up in the case tables of the Unicode database, \<open>To(LowerCase, r)\<close>. The tables
  are data of the Go distribution; the lookup is the parameter \<open>tbl\<close>.
\<close>

definition unicode_ToLower :: "(rune \<Rightarrow> rune) \<Rightarrow> rune \<Rightarrow> rune" where
  "unicode_ToLower tbl r =
     (if r \<le> 0x7F then (if 0x41 \<le> r \<and> r \<le> 0x5A then r + 0x20 else r)
      else tbl r)"

subsection \<open>Package strings\<close>

text \<open>\<open>strings.HasPrefix\<close> and \<open>strings.HasSuffix\<close>, by length test and slice comparison.\<close>

definition HasPrefix :: "string \<Rightarrow> string \<Rightarrow> bool" where
  "HasPrefix s pre = (length s \<ge> length pre \<and> take (length pre) s = pre)"

definition HasSuffix :: "string \<Rightarrow> string \<Rightarrow> bool" where
  "HasSuffix s suf = (length s \<ge> length suf \<and> drop (length s - length suf) s = suf)"

text \<open>
  \<open>strings.Map\<close>. The \<open>range\<close> loop over the string decodes one rune after the other,
  an invalid byte as \<open>RuneError\<close> of width 1; a negative result of the mapping drops
  the rune, every other result is written with \<open>WriteRune\<close>. (The library copies the
  prefix of the string that the mapping leaves unchanged instead of encoding it again,
  which gives the same bytes; an invalid byte never belongs to that prefix.)
\<close>

function strings_Map :: "(rune \<Rightarrow> rune) \<Rightarrow> string \<Rightarrow> string" where
  "strings_Map mapping [] = []"
| "strings_Map mapping (c # s) =
     (case DecodeRuneInString (c # s) of (c', width) \<Rightarrow>
        (let r = mapping c' in
         (if r \<ge> 0 then EncodeRune r else []) @ strings_Map mapping (drop width (c # s))))"
  by pat_completeness auto
termination
  by (relation "measure (\<lambda>(m, s). length s)")
     (auto simp: Let_def split: if_splits option.splits)

text \<open>The runes of a string, \<open>[]rune(s)\<close>, decoded as the \<open>range\<close> loop does.\<close>

function runes :: "string \<Rightarrow> rune list" where
  "runes [] = []"
| "runes (c # s) =
     (case DecodeRuneInString (c # s) of (r, width) \<Rightarrow> r # runes (drop width (c # s)))"
  by pat_completeness auto
termination
  by (relation "measure length")
     (auto simp: Let_def split: if_splits option.splits)

text \<open>
  \<open>strings.ToLower\<close>: a string of ASCII bytes is lowered byte by byte, any other
  string goes through \<open>Map(unicode.ToLower, s)\<close>.
\<close>

definition strings_ToLower :: "(rune \<Rightarrow> rune) \<Rightarrow> string \<Rightarrow> string" where
  "strings_ToLower tbl s =
     (if list_all (\<lambda>c. byte c < RuneSelf) s
      then map (\<lambda>c. if 0x41 \<le> byte c \<and> byte c \<le> 0x5A then char_of (byte c + 0x20) else c) s
      else strings_Map (unicode_ToLower tbl) s)"

text \<open>\<open>strings.TrimLeftFunc\<close>: \<open>indexFunc(s, f, false)\<close> and the slice from there.\<close>

function TrimLeftFunc :: "string \<Rightarrow> (rune \<Rightarrow> bool) \<Rightarrow> string" where
  "TrimLeftFunc [] f = []"
| "TrimLeftFunc (c # s) f =
     (case DecodeRuneInString (c # s) of (r, width) \<Rightarrow>
        if f r then TrimLeftFunc (drop width (c # s)) f else c # s)"
  by pat_completeness auto
termination
  by (relation "measure (\<lambda>(s, f). length s)")
     (auto simp: Let_def split: if_splits option.splits)

text \<open>
  \<open>strings.lastIndexFunc\<close>: the index of the last rune \<open>r\<close> with \<open>f(r) == truth\<close>, or
  \<open>-1\<close>. The argument \<open>s\<close> is the slice \<open>s[0:i]\<close> of the loop.
\<close>

function lastIndexFunc :: "string \<Rightarrow> (rune \<Rightarrow> bool) \<Rightarrow> bool \<Rightarrow> int" where
  "lastIndexFunc s f truth =
     (if s = [] then - 1
      else case DecodeLastRuneInString s of (r, width) \<Rightarrow>
        let i = int (length s) - int width in
        if f r = truth then i else lastIndexFunc (take (nat i) s) f truth)"
  by pat_completeness auto
termination
proof (relation "measure (\<lambda>(s, f, t). length s)")
  show "wf (measure (\<lambda>(s, f, t). length s))" by simp
next
  fix s :: string and f :: "rune \<Rightarrow> bool" and truth :: bool and r :: rune
    and width :: nat and i :: int
  assume ne: "s \<noteq> []" and rw: "(r, width) = DecodeLastRuneInString s"
    and i: "i = int (length s) - int width"
  have le: "scan_start s st lim \<le> st" for st lim
    by (induction s st lim rule: scan_start.induct) (subst scan_start.simps, auto)
  have "0 < width"
    using ne rw le [of "int (length s) - 2" "max (int (length s) - 4) 0"]
    by (auto simp: DecodeLastRuneInString_def Let_def split: if_splits prod.splits)
  then show "((take (nat i) s, f, truth), (s, f, truth)) \<in> measure (\<lambda>(s, f, t). length s)"
    using ne i by (cases s) auto
qed

declare lastIndexFunc.simps [simp del]

text \<open>
  \<open>strings.TrimRightFunc\<close> and \<open>strings.TrimFunc\<close>. \<open>TrimRightFunc\<close> moves the index
  \<open>i\<close> that \<open>lastIndexFunc\<close> found past the rune that begins there, \<open>sliceEnd\<close> here,
  and returns \<open>s[0:i]\<close>.
\<close>

definition sliceEnd :: "string \<Rightarrow> int \<Rightarrow> nat" where
  "sliceEnd s i =
     (if i \<ge> 0 \<and> byte (s ! nat i) \<ge> RuneSelf
      then (case DecodeRuneInString (drop (nat i) s) of (r, wid) \<Rightarrow> nat (i + int wid))
      else nat (i + 1))"

definition TrimRightFunc :: "string \<Rightarrow> (rune \<Rightarrow> bool) \<Rightarrow> string" where
  "TrimRightFunc s f = take (sliceEnd s (lastIndexFunc s f False)) s"

definition TrimFunc :: "string \<Rightarrow> (rune \<Rightarrow> bool) \<Rightarrow> string" where
  "TrimFunc s f = TrimRightFunc (TrimLeftFunc s f) f"

text \<open>The table \<open>asciiSpace\<close> of package strings.\<close>

definition asciiSpace :: "nat \<Rightarrow> bool" where
  "asciiSpace c = (c = 0x09 \<or> c = 0x0A \<or> c = 0x0B \<or> c = 0x0C \<or> c = 0x0D \<or> c = 0x20)"

text \<open>
  \<open>strings.TrimSpace\<close>. The first loop moves \<open>start\<close> over ASCII white space and hands
  \<open>s[start:]\<close> to \<open>TrimFunc\<close> at the first byte that is not ASCII; the second loop,
  \<open>trimStop\<close> here, moves \<open>stop\<close> down from the end of \<open>s[start:]\<close> in the same way
  and hands \<open>s[start:stop]\<close> to \<open>TrimRightFunc\<close>.
\<close>

function trimStop :: "string \<Rightarrow> string" where
  "trimStop s =
     (if s = [] then []
      else if byte (last s) \<ge> RuneSelf then TrimRightFunc s IsSpace
      else if asciiSpace (byte (last s)) then trimStop (butlast s)
      else s)"
  by pat_completeness auto
termination
  by (relation "measure length") auto

declare trimStop.simps [simp del]

fun TrimSpace :: "string \<Rightarrow> string" where
  "TrimSpace [] = trimStop []"
| "TrimSpace (c # s) =
     (if byte c \<ge> RuneSelf then TrimFunc (c # s) IsSpace
      else if asciiSpace (byte c) then TrimSpace s
      else trimStop (c # s))"

text \<open>
  A part of the lower-case table to run the functions with: the capital letters of
  Latin-1 and the Kelvin sign.
\<close>

definition latin1_table :: "rune \<Rightarrow> rune" where
  "latin1_table r =
     (if 0xC0 \<le> r \<and> r \<le> 0xDE \<and> r \<noteq> 0xD7 then r + 0x20
      else if r = 0x212A then 0x6B
      else r)"

text \<open>
  What the functions below need of the lower-case table: the lower-case form of a rune
  is a rune, and it is its own lower-case form.
\<close>

definition lower_table :: "(rune \<Rightarrow> rune) \<Rightarrow> bool" where
  "lower_table tbl =
     (\<forall>r. 0x80 \<le> r \<and> ValidRune r \<longrightarrow>
        ValidRune (tbl r) \<and> unicode_ToLower tbl (tbl r) = tbl r)"

section \<open>String sanitisation functions\<close>

text \<open>\<open>IsPrivate\<close> returns true if a name string is surrounded with underscores.\<close>

definition IsPrivate :: "string \<Rightarrow> bool" where
  "IsPrivate name = (HasPrefix name ''__'' \<and> HasSuffix name ''__'')"

text \<open>\<open>PairKey\<close> returns a lowercase pair key from user and name strings.\<close>

definition PairKey :: "(rune \<Rightarrow> rune) \<Rightarrow> string \<Rightarrow> string \<Rightarrow> string" where
  "PairKey tbl user name =
     (let user = strings_ToLower tbl user;
          name = strings_ToLower tbl name
      in user @ '':'' @ name)"

text \<open>\<open>PairValue\<close> returns a whitespace-trimmed pair value.\<close>

definition PairValue :: "string \<Rightarrow> string" where
  "PairValue text = TrimSpace text @ [CHR 0x0A]"

text \<open>
  A stored value is normalized when it ends in a newline and the text before that
  newline is empty or neither begins nor ends with white space, so that the newline at
  the end is the only one there.
\<close>

definition normalized :: "string \<Rightarrow> bool" where
  "normalized val =
     (val \<noteq> [] \<and> last val = CHR 0x0A \<and>
      (let body = butlast val in
       body = [] \<or>
       (last body \<noteq> CHR 0x0A
        \<and> \<not> IsSpace (fst (DecodeRuneInString body))
        \<and> \<not> IsSpace (fst (DecodeLastRuneInString body)))))"

section \<open>The embedded store\<close>

text \<open>
  The part of package bbolt that the program calls. A database holds named buckets, a
  bucket maps byte keys to byte values. \<open>Update\<close> runs a closure in a read-write
  transaction on a copy of the buckets and commits the copy when the closure returns
  \<open>nil\<close>; \<open>View\<close> runs a closure in a read-only transaction and always rolls back.
  An \<open>error\<close> result of Go is an \<^typ>\<open>'e option\<close>, \<open>nil\<close> being \<^const>\<open>None\<close>.
  The errors are those that the state of the handle and the arguments decide; failures
  of the storage medium and buckets nested in buckets are outside the model.
\<close>

datatype error =
    ErrDatabaseNotOpen
  | ErrDatabaseReadOnly
  | ErrTxNotWritable
  | ErrBucketNameRequired
  | ErrBucketNotFound
  | ErrKeyRequired
  | ErrKeyTooLarge
  | ErrValueTooLarge

type_synonym bucket = "string \<rightharpoonup> string"

record DB =
  opened :: bool
  readOnly :: bool
  buckets :: "string \<rightharpoonup> bucket"

record Tx =
  writable :: bool
  root :: "string \<rightharpoonup> bucket"

definition MaxKeySize :: nat where
  "MaxKeySize = 32768"

definition MaxValueSize :: nat where
  "MaxValueSize = 2 ^ 31 - 2"

definition Update :: "DB \<Rightarrow> (Tx \<Rightarrow> error option \<times> Tx) \<Rightarrow> error option \<times> DB" where
  "Update db fn =
     (if readOnly db then (Some ErrDatabaseReadOnly, db)
      else if \<not> opened db then (Some ErrDatabaseNotOpen, db)
      else case fn \<lparr>writable = True, root = buckets db\<rparr> of
        (Some err, tx) \<Rightarrow> (Some err, db)
      | (None, tx) \<Rightarrow> (None, db\<lparr>buckets := root tx\<rparr>))"

text \<open>
  The closure given to \<open>View\<close> assigns to variables of the enclosing function; they are
  the value of type \<^typ>\<open>'v\<close> that the closure takes and returns.
\<close>

definition View ::
  "DB \<Rightarrow> (Tx \<Rightarrow> 'v \<Rightarrow> error option \<times> Tx \<times> 'v) \<Rightarrow> 'v \<Rightarrow> (error option \<times> 'v) \<times> DB" where
  "View db fn vars =
     (if \<not> opened db then ((Some ErrDatabaseNotOpen, vars), db)
      else case fn \<lparr>writable = False, root = buckets db\<rparr> vars of
        (err, tx, vars') \<Rightarrow> ((err, vars'), db))"

text \<open>\<open>Tx.Bucket\<close>: the bucket of that name, or \<open>nil\<close>.\<close>

definition Tx_Bucket :: "Tx \<Rightarrow> string \<Rightarrow> bucket option" where
  "Tx_Bucket tx name = root tx name"

definition CreateBucketIfNotExists :: "Tx \<Rightarrow> string \<Rightarrow> error option \<times> Tx" where
  "CreateBucketIfNotExists tx name =
     (if \<not> writable tx then (Some ErrTxNotWritable, tx)
      else if length name = 0 then (Some ErrBucketNameRequired, tx)
      else case root tx name of
        Some b \<Rightarrow> (None, tx)
      | None \<Rightarrow> (None, tx\<lparr>root := (root tx)(name \<mapsto> Map.empty)\<rparr>))"

text \<open>
  The methods of a bucket. In Go the bucket is a pointer into its transaction; here
  the bucket is named and the transaction is passed and returned.
\<close>

definition Bucket_Get :: "bucket \<Rightarrow> string \<Rightarrow> string option" where
  "Bucket_Get b key = b key"

definition Bucket_Put :: "Tx \<Rightarrow> string \<Rightarrow> string \<Rightarrow> string \<Rightarrow> error option \<times> Tx" where
  "Bucket_Put tx name key val =
     (if \<not> writable tx then (Some ErrTxNotWritable, tx)
      else if length key = 0 then (Some ErrKeyRequired, tx)
      else if length key > MaxKeySize then (Some ErrKeyTooLarge, tx)
      else if length val > MaxValueSize then (Some ErrValueTooLarge, tx)
      else case root tx name of
        None \<Rightarrow> (Some ErrBucketNotFound, tx)
      | Some b \<Rightarrow> (None, tx\<lparr>root := (root tx)(name \<mapsto> b(key \<mapsto> val))\<rparr>))"

definition Bucket_Delete :: "Tx \<Rightarrow> string \<Rightarrow> string \<Rightarrow> error option \<times> Tx" where
  "Bucket_Delete tx name key =
     (if \<not> writable tx then (Some ErrTxNotWritable, tx)
      else case root tx name of
        None \<Rightarrow> (Some ErrBucketNotFound, tx)
      | Some b \<Rightarrow> (None, tx\<lparr>root := (root tx)(name \<mapsto> b(key := None))\<rparr>))"

section \<open>Database handling functions\<close>

text \<open>
  Each function returns what the Go function returns, paired with the database after
  the call.
\<close>

text \<open>\<open>DeletePair\<close> deletes an existing pair from a database.\<close>

definition DeletePair ::
  "(rune \<Rightarrow> rune) \<Rightarrow> DB \<Rightarrow> string \<Rightarrow> string \<Rightarrow> error option \<times> DB" where
  "DeletePair tbl db user name =
     Update db (\<lambda>tx.
       case Tx_Bucket tx ''main'' of
         Some buck \<Rightarrow> Bucket_Delete tx ''main'' (PairKey tbl user name)
       | None \<Rightarrow> (None, tx))"

text \<open>
  \<open>GetPair\<close> returns the value of an existing pair from a database and a boolean
  indicating if the pair exists. The \<open>return\<close> statement lists \<open>pval\<close> and \<open>okay\<close>
  before the call of \<open>db.View\<close> whose closure assigns them; the values returned are
  those after the call, which is what the Go compiler does and what \<open>TestGetPair\<close>
  asserts.
\<close>

definition GetPair ::
  "(rune \<Rightarrow> rune) \<Rightarrow> DB \<Rightarrow> string \<Rightarrow> string \<Rightarrow> (string \<times> bool \<times> error option) \<times> DB" where
  "GetPair tbl db user name =
     (let pval = [];
          okay = False
      in case View db (\<lambda>tx (pval, okay).
                case Tx_Bucket tx ''main'' of
                  Some buck \<Rightarrow>
                    (let bytes = Bucket_Get buck (PairKey tbl user name);
                         pval = (case bytes of None \<Rightarrow> [] | Some b \<Rightarrow> b);
                         okay = (bytes \<noteq> None)
                     in (None, tx, (pval, okay)))
                | None \<Rightarrow> (None, tx, (pval, okay)))
              (pval, okay) of
           ((err, (pval, okay)), db') \<Rightarrow> ((pval, okay, err), db'))"

text \<open>\<open>SetPair\<close> sets the value of a new or existing pair in a database.\<close>

definition SetPair ::
  "(rune \<Rightarrow> rune) \<Rightarrow> DB \<Rightarrow> string \<Rightarrow> string \<Rightarrow> string \<Rightarrow> error option \<times> DB" where
  "SetPair tbl db user name pval =
     Update db (\<lambda>tx.
       case CreateBucketIfNotExists tx ''main'' of
         (Some err, tx') \<Rightarrow> (Some err, tx')
       | (None, tx') \<Rightarrow> Bucket_Put tx' ''main'' (PairKey tbl user name) (PairValue pval))"

text \<open>
  The operations that change a database, and a run of them from a given database. A
  failed operation leaves the database as it was and the run goes on.
\<close>

datatype operation = Set string string string | Delete string string

fun apply_operation :: "(rune \<Rightarrow> rune) \<Rightarrow> DB \<Rightarrow> operation \<Rightarrow> DB" where
  "apply_operation tbl db (Set user name pval) = snd (SetPair tbl db user name pval)"
| "apply_operation tbl db (Delete user name) = snd (DeletePair tbl db user name)"

definition run :: "(rune \<Rightarrow> rune) \<Rightarrow> DB \<Rightarrow> operation list \<Rightarrow> DB" where
  "run tbl db ops = foldl (apply_operation tbl) db ops"

text \<open>The store before anything was written: an open database that holds no bucket.\<close>

definition empty_store :: DB where
  "empty_store = \<lparr>opened = True, readOnly = False, buckets = Map.empty\<rparr>"

text \<open>The bucket \<open>main\<close> of the database holds the value under the key.\<close>

definition stored :: "DB \<Rightarrow> string \<Rightarrow> string \<Rightarrow> bool" where
  "stored db key val = (case buckets db ''main'' of None \<Rightarrow> False | Some b \<Rightarrow> b key = Some val)"

text \<open>The database \<open>mockDB\<close> of the unit tests, populated with \<open>mockPairs\<close>.\<close>

definition mockDB :: DB where
  "mockDB = \<lparr>opened = True, readOnly = False,
     buckets = [''main'' \<mapsto> [''0000:alpha'' \<mapsto> ''Alpha.'' @ [CHR 0x0A],
                              ''0000:bravo'' \<mapsto> ''Bravo.'' @ [CHR 0x0A]]]\<rparr>"

section \<open>HTTP response functions\<close>

subsection \<open>Package fmt\<close>

text \<open>
  An argument of type \<open>any\<close> is an \<open>int\<close>, a \<open>string\<close> or a value of another type.
\<close>

datatype 'a any = AnyInt int | AnyString string | AnyOther 'a

text \<open>
  The flags, the width and the precision of a directive (the struct \<open>fmt\<close> of the
  printer). The fields \<open>minus\<close>, \<open>plus\<close> and \<open>zero\<close> carry the suffix \<open>_flag\<close>.
\<close>

record fmt =
  widPresent :: bool
  precPresent :: bool
  minus_flag :: bool
  plus_flag :: bool
  sharp :: bool
  space :: bool
  zero_flag :: bool
  plusV :: bool
  sharpV :: bool
  wid :: int
  prec :: int

text \<open>
  \<open>clearflags\<close> resets the flags, the width and the precision.
\<close>

definition clearflags :: fmt where
  "clearflags = \<lparr>widPresent = False, precPresent = False, minus_flag = False,
     plus_flag = False, sharp = False, space = False, zero_flag = False, plusV = False,
     sharpV = False, wid = 0, prec = 0\<rparr>"

text \<open>
  No flag, no width and no precision is set.
\<close>

definition plain :: "fmt \<Rightarrow> bool" where
  "plain f = (\<not> widPresent f \<and> \<not> precPresent f \<and> \<not> minus_flag f \<and> \<not> plus_flag f \<and> \<not> sharp f
     \<and> \<not> space f \<and> \<not> zero_flag f \<and> \<not> plusV f \<and> \<not> sharpV f)"

text \<open>
  What \<open>fmt\<close> prints for an \<open>int\<close> under \<open>%d\<close> and \<open>%v\<close> and for a \<open>string\<close> under
  \<open>%s\<close> and \<open>%v\<close>, with no flag, width or precision set, is written out. What it prints
  for every other combination of flags, argument and verb is the parameter \<open>other_verb\<close>;
  \<open>other_type\<close> is the name of the type of an argument of another type, and
  \<open>other_int\<close> is the integer that \<open>intFromArg\<close> finds in it, if it is of an integer
  kind. An argument prints the same wherever it stands: methods of an argument that
  change what they print from call to call are outside the model.
\<close>

record 'a printer =
  other_verb :: "fmt \<Rightarrow> 'a any \<Rightarrow> rune \<Rightarrow> string"
  other_type :: "'a \<Rightarrow> string"
  other_int :: "'a \<Rightarrow> int option"

text \<open>
  The decimal digits of a number, and \<open>%d\<close> of an \<open>int\<close>.
\<close>

fun digits :: "nat \<Rightarrow> string" where
  "digits n = (if n < 10 then [char_of (48 + n)] else digits (n div 10) @ [char_of (48 + n mod 10)])"

declare digits.simps [simp del]

definition fmtInteger :: "int \<Rightarrow> string" where
  "fmtInteger n = (if n < 0 then CHR ''-'' # digits (nat (- n)) else digits (nat n))"

text \<open>
  \<open>printArg\<close> writes one argument under a verb and the flags \<open>f\<close>.
\<close>

definition printArg :: "'a printer \<Rightarrow> fmt \<Rightarrow> 'a any \<Rightarrow> rune \<Rightarrow> string" where
  "printArg P f arg verb =
     (case arg of
        AnyInt n \<Rightarrow>
          if plain f \<and> (verb = 0x64 \<or> verb = 0x76) then fmtInteger n else other_verb P f arg verb
      | AnyString s \<Rightarrow>
          if plain f \<and> (verb = 0x73 \<or> verb = 0x76) then s else other_verb P f arg verb
      | AnyOther x \<Rightarrow> other_verb P f arg verb)"

text \<open>
  What \<open>doPrintf\<close> writes for a directive that it cannot serve.
\<close>

definition badArgNum :: "rune \<Rightarrow> string" where
  "badArgNum verb = ''%!'' @ EncodeRune verb @ ''(BADINDEX)''"

definition missingArg :: "rune \<Rightarrow> string" where
  "missingArg verb = ''%!'' @ EncodeRune verb @ ''(MISSING)''"

definition noVerbString :: string where
  "noVerbString = ''%!(NOVERB)''"

definition badWidthString :: string where
  "badWidthString = ''%!(BADWIDTH)''"

definition badPrecString :: string where
  "badPrecString = ''%!(BADPREC)''"

text \<open>
  \<open>parsenum\<close> converts the ASCII digits at the front of \<open>s = format[start:end]\<close> to a
  number; the last component of the result is \<open>newi - start\<close>. On a number above a
  million it gives up, and \<open>newi\<close> is \<open>end\<close>.
\<close>

definition tooLarge :: "int \<Rightarrow> bool" where
  "tooLarge x = (x > 1000000 \<or> x < - 1000000)"

fun parsenum_loop :: "string \<Rightarrow> int \<Rightarrow> bool \<Rightarrow> nat \<Rightarrow> int \<times> bool \<times> nat" where
  "parsenum_loop [] num isnum newi = (num, isnum, newi)"
| "parsenum_loop (c # s) num isnum newi =
     (if 0x30 \<le> byte c \<and> byte c \<le> 0x39 then
        (if tooLarge num then (0, False, newi + length (c # s))
         else parsenum_loop s (num * 10 + (int (byte c) - 0x30)) True (newi + 1))
      else (num, isnum, newi))"

definition parsenum :: "string \<Rightarrow> int \<times> bool \<times> nat" where
  "parsenum s = (if s = [] then (0, False, 0) else parsenum_loop s 0 False 0)"

text \<open>
  \<open>parseArgNumber\<close> reads the argument index \<open>[n]\<close> at the front of \<open>s = format[i:]\<close>,
  whose first byte is the opening bracket: the result is the index minus one, the number
  of bytes to skip and whether the index was read. A string of fewer than three bytes
  holds no index, and one byte is skipped.
\<close>

definition parseArgNumber :: "string \<Rightarrow> int \<times> nat \<times> bool" where
  "parseArgNumber s =
     (if length s < 3 then (0, 1, False)
      else
        let inner = takeWhile (\<lambda>c. c \<noteq> CHR '']'') (tl s); i = 1 + length inner in
        if i = length s then (0, 1, False)
        else case parsenum inner of
          (width, ok, newi) \<Rightarrow>
            if \<not> ok \<or> newi \<noteq> length inner then (0, i + 1, False)
            else (width - 1, i + 1, True))"

text \<open>
  \<open>intFromArg\<close> fetches the argument that a width or a precision \<open>*\<close> names.
\<close>

definition intFromArg :: "'a printer \<Rightarrow> 'a any list \<Rightarrow> nat \<Rightarrow> int \<times> bool \<times> nat" where
  "intFromArg P a n =
     (if n < length a then
        (case (case a ! n of
                 AnyInt v \<Rightarrow> (v, True)
               | AnyString s \<Rightarrow> (0, False)
               | AnyOther x \<Rightarrow> (case other_int P x of Some v \<Rightarrow> (v, True) | None \<Rightarrow> (0, False))) of
           (num, isInt) \<Rightarrow> if tooLarge num then (0, False, n + 1) else (num, isInt, n + 1))
      else (0, False, n))"

text \<open>
  The state of \<open>doPrintf\<close>: the fields \<open>buf\<close>, \<open>fmt\<close>, \<open>reordered\<close> and \<open>goodArgNum\<close>
  of the printer \<open>p\<close>, and the local variables \<open>argNum\<close> and \<open>afterIndex\<close>; the field
  \<open>format\<close> is \<open>format[i:]\<close>, what is left to read.
\<close>

record pp =
  buf :: string
  fmt :: fmt
  reordered :: bool
  goodArgNum :: bool
  argNum :: nat
  afterIndex :: bool
  format :: string

text \<open>
  The flags of a directive. Zero padding is to the left only: \<open>0\<close> after \<open>-\<close> is dropped,
  and \<open>-\<close> clears it.
\<close>

fun flags :: "fmt \<Rightarrow> string \<Rightarrow> fmt \<times> string" where
  "flags f [] = (f, [])"
| "flags f (c # s) =
     (if c = CHR ''#'' then flags (f\<lparr>sharp := True\<rparr>) s
      else if c = CHR ''0'' then flags (f\<lparr>zero_flag := \<not> minus_flag f\<rparr>) s
      else if c = CHR ''+'' then flags (f\<lparr>plus_flag := True\<rparr>) s
      else if c = CHR ''-'' then flags (f\<lparr>minus_flag := True, zero_flag := False\<rparr>) s
      else if c = CHR '' '' then flags (f\<lparr>space := True\<rparr>) s
      else (f, c # s))"

text \<open>
  \<open>argNumber\<close> reads an explicit argument index, if one is next; \<open>afterIndex\<close> is the
  result \<open>found\<close>, which all three callers assign to it.
\<close>

definition argNumber :: "nat \<Rightarrow> pp \<Rightarrow> pp" where
  "argNumber numArgs p =
     (if format p = [] \<or> hd (format p) \<noteq> CHR ''['' then p\<lparr>afterIndex := False\<rparr>
      else case parseArgNumber (format p) of
        (index, w, ok) \<Rightarrow>
          if ok \<and> 0 \<le> index \<and> index < int numArgs
          then p\<lparr>reordered := True, argNum := nat index, format := drop w (format p),
                 afterIndex := True\<rparr>
          else p\<lparr>reordered := True, goodArgNum := False, format := drop w (format p),
                 afterIndex := ok\<rparr>)"

text \<open>
  The width of a directive: \<open>*\<close> takes it from the arguments, else it is a number in
  the format.
\<close>

definition doWidth :: "'a printer \<Rightarrow> 'a any list \<Rightarrow> pp \<Rightarrow> pp" where
  "doWidth P a p =
     (if format p \<noteq> [] \<and> hd (format p) = CHR ''*'' then
        case intFromArg P a (argNum p) of
          (num, isInt, newArgNum) \<Rightarrow>
            p\<lparr>format := tl (format p),
              fmt := (if num < 0
                      then (fmt p)\<lparr>wid := - num, widPresent := isInt, minus_flag := True,
                                  zero_flag := False\<rparr>
                      else (fmt p)\<lparr>wid := num, widPresent := isInt\<rparr>),
              argNum := newArgNum,
              buf := (if \<not> isInt then buf p @ badWidthString else buf p),
              afterIndex := False\<rparr>
      else
        case parsenum (format p) of
          (num, isnum, newi) \<Rightarrow>
            p\<lparr>fmt := (fmt p)\<lparr>wid := num, widPresent := isnum\<rparr>,
              format := drop newi (format p),
              goodArgNum := (goodArgNum p \<and> \<not> (afterIndex p \<and> isnum))\<rparr>)"

text \<open>
  The precision of a directive, after its period and an argument index.
\<close>

definition precisionValue :: "'a printer \<Rightarrow> 'a any list \<Rightarrow> pp \<Rightarrow> pp" where
  "precisionValue P a p =
     (if format p \<noteq> [] \<and> hd (format p) = CHR ''*'' then
        case intFromArg P a (argNum p) of
          (num, isInt, newArgNum) \<Rightarrow>
            p\<lparr>format := tl (format p),
              fmt := (if num < 0 then (fmt p)\<lparr>prec := 0, precPresent := False\<rparr>
                      else (fmt p)\<lparr>prec := num, precPresent := isInt\<rparr>),
              argNum := newArgNum,
              buf := (if num < 0 \<or> \<not> isInt then buf p @ badPrecString else buf p),
              afterIndex := False\<rparr>
      else
        case parsenum (format p) of
          (num, isnum, newi) \<Rightarrow>
            p\<lparr>fmt := (if isnum then (fmt p)\<lparr>prec := num, precPresent := True\<rparr>
                      else (fmt p)\<lparr>prec := 0, precPresent := True\<rparr>),
              format := drop newi (format p)\<rparr>)"

text \<open>
  The period and the precision of a directive.
\<close>

definition doPrecision :: "'a printer \<Rightarrow> 'a any list \<Rightarrow> pp \<Rightarrow> pp" where
  "doPrecision P a p =
     (if format p \<noteq> [] \<and> hd (format p) = CHR ''.'' then
        precisionValue P a
          (argNumber (length a)
             (p\<lparr>format := tl (format p),
                goodArgNum := (goodArgNum p \<and> \<not> afterIndex p)\<rparr>))
      else p)"

text \<open>
  The verb at the front of \<open>s\<close> and its size in bytes.
\<close>

definition readVerb :: "string \<Rightarrow> rune \<times> nat" where
  "readVerb s = (if byte (hd s) \<ge> RuneSelf then DecodeRuneInString s else (int (byte (hd s)), 1))"

text \<open>
  The argument \<open>a[argNum]\<close> is printed under the verb, and \<open>argNum\<close> moves on. The verbs
  \<open>v\<close> and \<open>w\<close> turn the flags \<open>#\<close> and \<open>+\<close> into \<open>sharpV\<close> and \<open>plusV\<close>.
\<close>

definition printVerb :: "'a printer \<Rightarrow> 'a any list \<Rightarrow> rune \<Rightarrow> pp \<Rightarrow> pp" where
  "printVerb P a verb p =
     (let f = (if verb = 0x77 \<or> verb = 0x76
               then (fmt p)\<lparr>sharpV := sharp (fmt p), sharp := False,
                           plusV := plus_flag (fmt p), plus_flag := False\<rparr>
               else fmt p)
      in p\<lparr>fmt := f, buf := buf p @ printArg P f (a ! argNum p) verb, argNum := argNum p + 1\<rparr>)"

text \<open>
  The verb of a directive is read and served: \<open>%%\<close> writes a percent sign, a bad
  argument index and a missing argument are reported, else the argument is printed.
\<close>

definition doVerb :: "'a printer \<Rightarrow> 'a any list \<Rightarrow> pp \<Rightarrow> pp" where
  "doVerb P a p =
     (case readVerb (format p) of
        (verb, w) \<Rightarrow>
          let p = p\<lparr>format := drop w (format p)\<rparr> in
          if verb = 0x25 then p\<lparr>buf := buf p @ ''%''\<rparr>
          else if \<not> goodArgNum p then p\<lparr>buf := buf p @ badArgNum verb\<rparr>
          else if argNum p \<ge> length a then p\<lparr>buf := buf p @ missingArg verb\<rparr>
          else printVerb P a verb p)"

text \<open>
  After the flags come an argument index, the width, the precision and, unless one was
  just read, an argument index.
\<close>

definition directiveArgs :: "'a printer \<Rightarrow> 'a any list \<Rightarrow> pp \<Rightarrow> pp" where
  "directiveArgs P a p =
     (let p = argNumber (length a) p;
          p = doWidth P a p;
          p = doPrecision P a p
      in if \<not> afterIndex p then argNumber (length a) p else p)"

text \<open>
  One directive, from the byte after its \<open>%\<close>. A lower-case ASCII verb right after the
  flags with an argument at hand is the fast path of \<open>doPrintf\<close>. Where the format ends
  before the verb, \<open>%!(NOVERB)\<close> is written and the loop is left: the second component
  of the result is \<^const>\<open>False\<close>.
\<close>

definition directive :: "'a printer \<Rightarrow> 'a any list \<Rightarrow> pp \<Rightarrow> pp \<times> bool" where
  "directive P a p =
     (case flags clearflags (format p) of
        (f, s) \<Rightarrow>
          if s \<noteq> [] \<and> 0x61 \<le> byte (hd s) \<and> byte (hd s) \<le> 0x7A \<and> argNum p < length a
          then (printVerb P a (int (byte (hd s))) (p\<lparr>fmt := f, format := tl s\<rparr>), True)
          else
            let p = directiveArgs P a (p\<lparr>fmt := f, format := s\<rparr>)
            in if format p = [] then (p\<lparr>buf := buf p @ noVerbString\<rparr>, False)
               else (doVerb P a p, True))"

text \<open>
  The loop \<open>formatLoop\<close> of \<open>doPrintf\<close> copies the bytes up to the next \<open>%\<close> and serves
  the directive there.
\<close>

function formatLoop :: "'a printer \<Rightarrow> 'a any list \<Rightarrow> pp \<Rightarrow> pp" where
  "formatLoop P a p =
     (case format p of
        [] \<Rightarrow> p
      | c # s \<Rightarrow>
          if c \<noteq> CHR ''%''
          then formatLoop P a (p\<lparr>goodArgNum := True, buf := buf p @ [c], format := s\<rparr>)
          else case directive P a (p\<lparr>goodArgNum := True, format := s\<rparr>) of
                 (p', again) \<Rightarrow> if again then formatLoop P a p' else p')"
  by pat_completeness auto
termination
proof (relation "measure (\<lambda>(P, a, p). length (format p))", goal_cases)
  case 1
  show ?case by simp
next
  case (2 P a p c s)
  then show ?case by simp
next
  case (3 P a p c s p' again)
  have fl: "length (snd (flags f t)) \<le> length t" for f t
    by (induction f t rule: flags.induct) auto
  have an: "length (format (argNumber n q)) \<le> length (format q)" for n q
    by (simp add: argNumber_def split: prod.splits)
  have wi: "length (format (doWidth P a q)) \<le> length (format q)" for q
    by (simp add: doWidth_def split: prod.splits)
  have pv: "length (format (precisionValue P a q)) \<le> length (format q)" for q
    by (simp add: precisionValue_def split: prod.splits)
  have pr: "length (format (doPrecision P a q)) \<le> length (format q)" for q
    using an [of "length a" "q\<lparr>format := tl (format q),
        goodArgNum := (goodArgNum q \<and> \<not> afterIndex q)\<rparr>"]
      pv [of "argNumber (length a) (q\<lparr>format := tl (format q),
        goodArgNum := (goodArgNum q \<and> \<not> afterIndex q)\<rparr>)"]
    by (auto simp: doPrecision_def)
  have ve: "length (format (doVerb P a q)) \<le> length (format q)" for q
    by (simp add: doVerb_def printVerb_def Let_def split: prod.splits)
  have da: "length (format (directiveArgs P a q)) \<le> length (format q)" for q
  proof -
    define q1 where "q1 = argNumber (length a) q"
    define q2 where "q2 = doWidth P a q1"
    define q3 where "q3 = doPrecision P a q2"
    have "length (format q3) \<le> length (format q)"
      unfolding q3_def q2_def q1_def
      using an [of "length a" q] wi [of "argNumber (length a) q"]
        pr [of "doWidth P a (argNumber (length a) q)"]
      by simp
    then show ?thesis
      using an [of "length a" q3]
      by (auto simp: directiveArgs_def Let_def q3_def q2_def q1_def)
  qed
  define q where "q = p\<lparr>goodArgNum := True, format := s\<rparr>"
  obtain f t where ft: "flags clearflags (format q) = (f, t)"
    by (cases "flags clearflags (format q)") auto
  have t: "length t \<le> length s"
    using fl [of clearflags "format q"] ft by (simp add: q_def)
  have "length (format (doVerb P a (directiveArgs P a (q\<lparr>fmt := f, format := t\<rparr>)))) \<le> length s"
    using ve [of "directiveArgs P a (q\<lparr>fmt := f, format := t\<rparr>)"]
      da [of "q\<lparr>fmt := f, format := t\<rparr>"] t
    by simp
  then have "length (format p') \<le> length s"
    using 3(3,4) ft t
    unfolding q_def [symmetric] directive_def
    by (auto simp: Let_def printVerb_def split: if_splits)
  then show ?case using 3(1) by simp
qed

declare formatLoop.simps [simp del]

text \<open>
  An argument left over, as \<open>doPrintf\<close> reports it after the loop.
\<close>

definition extraArg :: "'a printer \<Rightarrow> 'a any \<Rightarrow> string" where
  "extraArg P arg =
     (case arg of
        AnyInt n \<Rightarrow> ''int''
      | AnyString s \<Rightarrow> ''string''
      | AnyOther x \<Rightarrow> other_type P x) @ ''='' @ printArg P clearflags arg 0x76"

fun commaSep :: "string list \<Rightarrow> string" where
  "commaSep [] = []"
| "commaSep [x] = x"
| "commaSep (x # y # ys) = x @ '', '' @ commaSep (y # ys)"

text \<open>
  \<open>doPrintf\<close> runs the loop from the start of the format and reports the arguments
  left over, unless an argument index was used.
\<close>

definition doPrintf :: "'a printer \<Rightarrow> string \<Rightarrow> 'a any list \<Rightarrow> pp" where
  "doPrintf P s a =
     (let p = formatLoop P a \<lparr>buf = [], fmt = clearflags, reordered = False, goodArgNum = False,
                argNum = 0, afterIndex = False, format = s\<rparr>
      in if \<not> reordered p \<and> argNum p < length a
         then p\<lparr>fmt := clearflags,
                buf := buf p @ ''%!(EXTRA '' @ commaSep (map (extraArg P) (drop (argNum p) a)) @ '')''\<rparr>
         else p)"

text \<open>
  \<open>Sprintf\<close> formats according to a format specifier and returns the resulting string.
\<close>

definition Sprintf :: "'a printer \<Rightarrow> string \<Rightarrow> 'a any list \<Rightarrow> string" where
  "Sprintf P s a = buf (doPrintf P s a)"

subsection \<open>Formats that are cut short in a directive\<close>

text \<open>
  How far a directive reaches in the format does not depend on the arguments:
  \<open>skipArgNumber\<close> is what \<open>argNumber\<close> skips, with its result \<open>found\<close>, \<open>skipNumber\<close>
  is what a width or a precision takes, and \<open>toVerb\<close> is what is left of a directive,
  given from its flags on, when its verb is read.
\<close>

definition skipArgNumber :: "string \<Rightarrow> string \<times> bool" where
  "skipArgNumber s =
     (if s = [] \<or> hd s \<noteq> CHR ''['' then (s, False)
      else case parseArgNumber s of (index, w, ok) \<Rightarrow> (drop w s, ok))"

definition skipNumber :: "string \<times> bool \<Rightarrow> string \<times> bool" where
  "skipNumber sa =
     (case sa of (s, after) \<Rightarrow>
        if s \<noteq> [] \<and> hd s = CHR ''*'' then (tl s, False)
        else case parsenum s of (num, isnum, newi) \<Rightarrow> (drop newi s, after))"

definition toVerb :: "string \<Rightarrow> string" where
  "toVerb s =
     (case skipNumber (skipArgNumber s) of
        (s, after) \<Rightarrow>
          case (if s \<noteq> [] \<and> hd s = CHR ''.'' then skipNumber (skipArgNumber (tl s))
                else (s, after)) of
            (s, after) \<Rightarrow> if after then s else fst (skipArgNumber s))"

text \<open>
  The format is cut short in a directive: its last directive reaches the end of the
  format before a verb is read, where \<open>doPrintf\<close> writes \<open>%!(NOVERB)\<close> (a trailing
  \<open>%\<close> or \<open>%5\<close>, and any directive with a width or a precision above a million,
  after which \<open>parsenum\<close> reads no further), or the last two bytes of the format are an
  empty argument index \<open>[]\<close> of its last directive, which \<open>parseArgNumber\<close> reads as
  an index only when a third byte follows.
\<close>

function unfinished :: "string \<Rightarrow> bool" where
  "unfinished [] = False"
| "unfinished (c # s) =
     (if c \<noteq> CHR ''%'' then unfinished s
      else case toVerb (snd (flags clearflags s)) of
        [] \<Rightarrow> True
      | v # t \<Rightarrow>
          let rest = drop (snd (readVerb (v # t))) (v # t)
          in if rest = [] then suffix ''[]'' s else unfinished rest)"
  by pat_completeness auto
termination
proof (relation "measure length", goal_cases)
  case 1
  show ?case by simp
next
  case (2 c s)
  then show ?case by simp
next
  case (3 c s v t rest)
  have fl: "length (snd (flags f t)) \<le> length t" for f t
    by (induction f t rule: flags.induct) auto
  have an: "length (fst (skipArgNumber t)) \<le> length t" for t
    by (simp add: skipArgNumber_def split: prod.splits)
  have nu: "length (fst (skipNumber ta)) \<le> length (fst ta)" for ta
    by (cases ta) (simp add: skipNumber_def split: prod.splits)
  have sn: "length (fst (skipNumber (skipArgNumber t))) \<le> length t" for t
    using nu [of "skipArgNumber t"] an [of t] by simp
  have tv: "length (toVerb u) \<le> length u" for u
  proof -
    obtain s1 a1 where s1: "skipNumber (skipArgNumber u) = (s1, a1)"
      by force
    have l1: "length s1 \<le> length u"
      using sn [of u] s1 by simp
    obtain s2 a2 where s2: "(if s1 \<noteq> [] \<and> hd s1 = CHR ''.'' then skipNumber (skipArgNumber (tl s1))
        else (s1, a1)) = (s2, a2)"
      by force
    have l2: "length s2 \<le> length s1"
      using sn [of "tl s1"] s2 by (auto split: if_splits)
    show ?thesis
      using an [of s2] l1 l2 by (simp add: toVerb_def s1 s2)
  qed
  have "length (v # t) \<le> length s"
    using tv [of "snd (flags clearflags s)"] fl [of clearflags s] 3(2) by simp
  then show ?case using 3(3) by simp
qed

subsection \<open>The response writer\<close>

text \<open>
  The \<open>http.ResponseWriter\<close> is the \<open>httptest.ResponseRecorder\<close> of the tests.
  \<open>WriteHeader\<close> panics on a status code that has not three digits, as the writer of
  the HTTP server does; \<open>snapHeader\<close> is the header as sent with the status. The status
  code is a Go \<open>int\<close>, modelled as an \<^typ>\<open>int\<close>.
\<close>

record ResponseRecorder =
  Code :: int
  HeaderMap :: "string \<rightharpoonup> string list"
  snapHeader :: "string \<rightharpoonup> string list"
  Body :: string
  wroteHeader :: bool

datatype 'w outcome = Returns 'w | Panics

definition NewRecorder :: ResponseRecorder where
  "NewRecorder = \<lparr>Code = 200, HeaderMap = Map.empty, snapHeader = Map.empty, Body = [],
                  wroteHeader = False\<rparr>"

definition Header_Set :: "ResponseRecorder \<Rightarrow> string \<Rightarrow> string \<Rightarrow> ResponseRecorder" where
  "Header_Set rw key val = rw\<lparr>HeaderMap := (HeaderMap rw)(key \<mapsto> [val])\<rparr>"

definition WriteHeader :: "ResponseRecorder \<Rightarrow> int \<Rightarrow> ResponseRecorder outcome" where
  "WriteHeader rw code =
     (if wroteHeader rw then Returns rw
      else if code < 100 \<or> code > 999 then Panics
      else Returns (rw\<lparr>snapHeader := HeaderMap rw, Code := code, wroteHeader := True\<rparr>))"

text \<open>
  \<open>Write\<close> appends to the body. Before any \<open>WriteHeader\<close> it first writes the header
  with status 200; when the header has no content type yet it would set one by sniffing
  the bytes, which the model does not cover: the result is \<^const>\<open>None\<close> there.
\<close>

definition Write :: "ResponseRecorder \<Rightarrow> string \<Rightarrow> ResponseRecorder option" where
  "Write rw b =
     (if wroteHeader rw then Some (rw\<lparr>Body := Body rw @ b\<rparr>)
      else if HeaderMap rw ''Content-Type'' = None then None
      else Some (rw\<lparr>snapHeader := HeaderMap rw, Code := 200, wroteHeader := True,
                     Body := Body rw @ b\<rparr>))"

text \<open>
  \<open>Fprintf\<close> formats according to a format specifier and writes to \<open>w\<close>.
\<close>

definition Fprintf ::
  "'a printer \<Rightarrow> ResponseRecorder \<Rightarrow> string \<Rightarrow> 'a any list \<Rightarrow> ResponseRecorder option" where
  "Fprintf P w s a = Write w (buf (doPrintf P s a))"

text \<open>
  \<open>WriteHTTP\<close> writes a plaintext response to a ResponseWriter.
\<close>

definition WriteHTTP ::
  "'a printer \<Rightarrow> ResponseRecorder \<Rightarrow> int \<Rightarrow> string \<Rightarrow> 'a any list
     \<Rightarrow> ResponseRecorder outcome option" where
  "WriteHTTP P w code form elems =
     (case WriteHeader (Header_Set w ''Content-Type'' ''text/plain; charset=utf-8'') code of
        Panics \<Rightarrow> Some Panics
      | Returns w' \<Rightarrow> map_option Returns (Fprintf P w' (form @ [CHR 0x0A]) elems))"

text \<open>
  \<open>WriteError\<close> writes a plaintext error response to a ResponseWriter.
\<close>

definition WriteError ::
  "'a printer \<Rightarrow> ResponseRecorder \<Rightarrow> int \<Rightarrow> string \<Rightarrow> 'a any list
     \<Rightarrow> ResponseRecorder outcome option" where
  "WriteError P w code form elems =
     WriteHTTP P w code (Sprintf P ''server error %d: %s'' [AnyInt code, AnyString form]) elems"

text \<open>
  \<open>WriteFailure\<close> writes a plaintext failure response to a ResponseWriter.
\<close>

definition WriteFailure ::
  "'a printer \<Rightarrow> ResponseRecorder \<Rightarrow> int \<Rightarrow> string \<Rightarrow> 'a any list
     \<Rightarrow> ResponseRecorder outcome option" where
  "WriteFailure P w code form elems =
     WriteHTTP P w code (Sprintf P ''client error %d: %s'' [AnyInt code, AnyString form]) elems"

text \<open>
  A printer to run the functions with. It knows the verbs \<open>d\<close>, \<open>s\<close> and \<open>v\<close>, a width
  and the flag \<open>-\<close>: a verb that does not fit its argument prints the bad-verb text of
  \<open>fmt\<close>, the other flags and the precision are ignored, and the arguments of another
  type are values of type \<open>uint\<close>.
\<close>

definition plain_printer :: "nat printer" where
  "plain_printer =
     \<lparr>other_verb = (\<lambda>f arg verb.
        let (type, v, fits) =
              (case arg of
                 AnyInt n \<Rightarrow> (''int'', fmtInteger n, verb = 0x64 \<or> verb = 0x76)
               | AnyString s \<Rightarrow> (''string'', s, verb = 0x73 \<or> verb = 0x76)
               | AnyOther x \<Rightarrow> (''uint'', digits x, verb = 0x64 \<or> verb = 0x76))
        in if \<not> fits then ''%!'' @ EncodeRune verb @ ''('' @ type @ ''='' @ v @ '')''
           else if \<not> widPresent f then v
           else if minus_flag f then v @ replicate (nat (wid f) - length (runes v)) CHR '' ''
           else replicate (nat (wid f) - length (runes v)) CHR '' '' @ v),
      other_type = (\<lambda>x. ''uint''),
      other_int = (\<lambda>x. Some (int x))\<rparr>"

section \<open>Properties of the library functions\<close>

subsection \<open>Decoding at the front and at the back of a string\<close>

lemma RuneStart_iff: "RuneStart b \<longleftrightarrow> \<not> (0x80 \<le> b \<and> b \<le> 0xBF)"
  unfolding RuneStart_def by arith

lemma utf8_first_Some:
  "utf8_first b = Some (sz, lo, hi) \<Longrightarrow>
     (sz = 2 \<or> sz = 3 \<or> sz = 4) \<and> 0x80 \<le> lo \<and> hi \<le> 0xBF \<and> 0xC2 \<le> b \<and> b \<le> 0xF4"
  by (auto simp: utf8_first_def split: if_splits)

lemma Decode_append_1:
  "at_boundary q \<Longrightarrow> DecodeRuneInString ([c0] @ q) = DecodeRuneInString [c0]"
  by (cases q) (auto simp: at_boundary_def RuneStart_iff Let_def RuneSelf_def
       split: option.splits dest!: utf8_first_Some)

lemma Decode_append_2:
  "at_boundary q \<Longrightarrow> DecodeRuneInString ([c0, c1] @ q) = DecodeRuneInString [c0, c1]"
  by (cases q) (auto simp: at_boundary_def RuneStart_iff Let_def RuneSelf_def
       split: option.splits dest!: utf8_first_Some)

lemma Decode_append_3:
  "at_boundary q \<Longrightarrow> DecodeRuneInString ([c0, c1, c2] @ q) = DecodeRuneInString [c0, c1, c2]"
  by (cases q) (auto simp: at_boundary_def RuneStart_iff Let_def RuneSelf_def
       split: option.splits dest!: utf8_first_Some)

lemma Decode_append_4:
  "DecodeRuneInString ((c0 # c1 # c2 # c3 # t) @ q) = DecodeRuneInString (c0 # c1 # c2 # c3 # t)"
  by (auto simp: Let_def RuneSelf_def split: option.splits dest!: utf8_first_Some)

lemma list_shapes:
  obtains "t = []" | c0 where "t = [c0]" | c0 c1 where "t = [c0, c1]"
  | c0 c1 c2 where "t = [c0, c1, c2]" | c0 c1 c2 c3 u where "t = c0 # c1 # c2 # c3 # u"
  by (metis list.exhaust)

lemma Decode_append:
  assumes "t \<noteq> []" "at_boundary q"
  shows "DecodeRuneInString (t @ q) = DecodeRuneInString t"
  using assms Decode_append_1 Decode_append_2 Decode_append_3 Decode_append_4
  by (cases t rule: list_shapes) (simp_all del: DecodeRuneInString.simps)

lemma Decode_width:
  "s \<noteq> [] \<Longrightarrow> DecodeRuneInString s = (r, w) \<Longrightarrow> 1 \<le> w \<and> w \<le> length s"
  by (cases s) (auto simp: Let_def Suc_le_eq split: if_splits option.splits dest!: utf8_first_Some)

lemma Decode_RuneStart:
  "DecodeRuneInString (c # s) = (r, w) \<Longrightarrow> r \<noteq> RuneError \<Longrightarrow> RuneStart (byte c)"
  by (auto simp: Let_def RuneStart_iff RuneSelf_def split: if_splits option.splits dest!: utf8_first_Some)

lemma Decode_ascii:
  "byte c < 0x80 \<Longrightarrow> DecodeRuneInString (c # s) = (int (byte c), 1)"
  by (simp add: RuneSelf_def)

lemma Decode_single:
  "byte c \<ge> 0x80 \<Longrightarrow> DecodeRuneInString [c] = (RuneError, 1)"
  by (auto simp: Let_def RuneSelf_def split: option.splits dest!: utf8_first_Some)

lemma scan_start_le: "scan_start s st lim \<le> st"
  by (induction s st lim rule: scan_start.induct) (subst scan_start.simps, auto)

lemma DecodeLast_cases:
  assumes "p \<noteq> []" "DecodeLastRuneInString p = (r, w)"
  obtains (ascii) "byte (last p) < 0x80" "r = int (byte (last p))" "w = 1"
  | (invalid) "byte (last p) \<ge> 0x80" "r = RuneError" "w = 1"
  | (multi) "byte (last p) \<ge> 0x80" "1 \<le> w" "w \<le> length p"
      "DecodeRuneInString (drop (length p - w) p) = (r, w)"
proof -
  let ?end = "int (length p)"
  have len: "0 < length p" using assms(1) by simp
  have lastp: "p ! nat (?end - 1) = last p"
    using assms(1) by (simp add: last_conv_nth nat_diff_distrib')
  show thesis
  proof (cases "byte (last p) < 0x80")
    case True
    with assms lastp have "r = int (byte (last p))" "w = 1"
      by (auto simp: DecodeLastRuneInString_def Let_def RuneSelf_def)
    with True show thesis by (rule ascii)
  next
    case False
    let ?st = "scan_start p (?end - 2) (max (?end - 4) 0)"
    let ?start = "if ?st < 0 then 0 else ?st"
    define start where "start = ?start"
    have b: "0 \<le> start" "start < ?end"
      using scan_start_le [of p "?end - 2" "max (?end - 4) 0"] len
      by (auto simp: start_def)
    obtain r' w' where d: "DecodeRuneInString (drop (nat start) p) = (r', w')"
      by (cases "DecodeRuneInString (drop (nat start) p)") auto
    have "DecodeLastRuneInString p =
        (case DecodeRuneInString (drop (nat ?start) p) of
           (r', w') \<Rightarrow> if ?start + int w' \<noteq> ?end then (RuneError, 1) else (r', w'))"
      using False lastp len by (simp add: DecodeLastRuneInString_def Let_def RuneSelf_def)
    then have res: "(r, w) = (if start + int w' \<noteq> ?end then (RuneError, 1) else (r', w'))"
      using assms(2) d unfolding start_def by simp
    show thesis
    proof (cases "start + int w' = ?end")
      case True
      then have "r = r'" "w = w'" using res by auto
      moreover have "nat start = length p - w'" using True b by linarith
      moreover have "1 \<le> w'" "w' \<le> length p" using True b by linarith+
      ultimately show thesis using d False multi by (metis leI)
    next
      case ne: False
      then have "r = RuneError" "w = 1" using res by auto
      with False show thesis using invalid by (metis leI)
    qed
  qed
qed

lemma DecodeLast_width:
  assumes "p \<noteq> []" "DecodeLastRuneInString p = (r, w)"
  shows "1 \<le> w \<and> w \<le> length p"
  using assms by (cases rule: DecodeLast_cases) (insert assms(1), auto simp: Suc_le_eq)

lemma sliceEnd_last:
  assumes "p \<noteq> []" "DecodeLastRuneInString p = (r, w)" "at_boundary q"
  shows "sliceEnd (p @ q) (int (length p) - int w) = length p"
proof -
  let ?i = "length p - w"
  have w: "1 \<le> w" "w \<le> length p" using DecodeLast_width [OF assms(1,2)] by auto
  have i: "?i < length p" using w by simp
  have idx: "nat (int (length p) - int w) = ?i" "int (length p) - int w \<ge> 0" using w by auto
  have nth: "(p @ q) ! ?i = p ! ?i" using i by (simp add: nth_append)
  have ne: "drop ?i p \<noteq> []" using i by simp
  have se: "sliceEnd (p @ q) (int (length p) - int w) =
      (if byte (p ! ?i) \<ge> 0x80 then ?i + snd (DecodeRuneInString (drop ?i p @ q)) else ?i + 1)"
    using i w by (auto simp: sliceEnd_def idx nth RuneSelf_def split: prod.splits)
  from assms(1,2) show ?thesis
  proof (cases rule: DecodeLast_cases)
    case ascii
    then show ?thesis
      using assms(1) se by (simp add: last_conv_nth)
  next
    case invalid
    have "drop ?i p = [last p]"
      using assms(1) invalid(3) by (cases p rule: rev_cases) auto
    then have "DecodeRuneInString (drop ?i p @ q) = (RuneError, 1)"
      using Decode_append_1 [OF assms(3), of "last p"] Decode_single [of "last p"] invalid(1)
      by simp
    then show ?thesis
      using se invalid(3) assms(1) by simp
  next
    case multi
    have d: "DecodeRuneInString (drop ?i p @ q) = (r, w)"
      using Decode_append [OF ne assms(3)] multi(4) by simp
    show ?thesis
    proof (cases "byte (p ! ?i) < 0x80")
      case True
      have "drop ?i p = p ! ?i # drop (Suc ?i) p" using i by (simp add: Cons_nth_drop_Suc)
      then have "w = 1" using Decode_ascii [OF True, of "drop (Suc ?i) p"] multi(4) by simp
      then show ?thesis
        using True se assms(1) by simp
    next
      case False
      then show ?thesis
        using se d w by simp
    qed
  qed
qed

lemma DecodeLast_RuneStart:
  assumes "p \<noteq> []" "DecodeLastRuneInString p = (r, w)" "r \<noteq> RuneError"
  shows "at_boundary (drop (length p - w) p @ q)"
  using assms(1,2)
proof (cases rule: DecodeLast_cases)
  case ascii
  then have "drop (length p - w) p = [last p]"
    using assms(1) by (cases p rule: rev_cases) auto
  then show ?thesis using ascii by (simp add: at_boundary_def RuneStart_iff)
next
  case invalid
  then show ?thesis using assms(3) by simp
next
  case multi
  then obtain c u where cu: "drop (length p - w) p = c # u"
    using assms(1) by (cases "drop (length p - w) p") auto
  then show ?thesis
    using Decode_RuneStart [of c u r w] multi(4) assms(3) by (simp add: at_boundary_def)
qed

subsection \<open>Encoding and decoding a rune\<close>

lemma mod_off:
  fixes b k m :: nat
  assumes "k * m \<le> b" "b < k * m + m"
  shows "b mod m = b - k * m"
proof -
  have "b = (b - k * m) + k * m" using assms by simp
  then have "b mod m = (b - k * m) mod m" by (metis mod_mult_self1)
  then show ?thesis using assms by simp
qed

lemma mod_lead:
  fixes b :: nat
  shows "0xC0 \<le> b \<Longrightarrow> b \<le> 0xDF \<Longrightarrow> b mod 32 = b - 0xC0"
    and "0xE0 \<le> b \<Longrightarrow> b \<le> 0xEF \<Longrightarrow> b mod 16 = b - 0xE0"
    and "0xF0 \<le> b \<Longrightarrow> b \<le> 0xF7 \<Longrightarrow> b mod 8 = b - 0xF0"
    and "0x80 \<le> b \<Longrightarrow> b \<le> 0xBF \<Longrightarrow> b mod 64 = b - 0x80"
  using mod_off [of 6 32 b] mod_off [of 14 16 b] mod_off [of 30 8 b] mod_off [of 2 64 b]
  by simp_all

lemma valid2:
  assumes "utf8_first b0 = Some (2, lo, hi)" "lo \<le> b1" "b1 \<le> hi"
  shows "ValidRune (int (b0 mod 32 * 64 + b1 mod 64))"
  using assms
  by (auto simp: utf8_first_def ValidRune_def MaxRune_def mod_lead split: if_splits)

lemma valid3:
  assumes "utf8_first b0 = Some (3, lo, hi)" "lo \<le> b1" "b1 \<le> hi" "0x80 \<le> b2" "b2 \<le> 0xBF"
  shows "ValidRune (int (b0 mod 16 * 4096 + b1 mod 64 * 64 + b2 mod 64))"
  using assms
  by (auto simp: utf8_first_def ValidRune_def MaxRune_def mod_lead split: if_splits)

lemma valid4:
  assumes "utf8_first b0 = Some (4, lo, hi)" "lo \<le> b1" "b1 \<le> hi" "0x80 \<le> b2" "b2 \<le> 0xBF"
    "0x80 \<le> b3" "b3 \<le> 0xBF"
  shows "ValidRune (int (b0 mod 8 * 262144 + b1 mod 64 * 4096 + b2 mod 64 * 64 + b3 mod 64))"
  using assms
  by (auto simp: utf8_first_def ValidRune_def MaxRune_def mod_lead split: if_splits)


lemma ValidRune_RuneError: "ValidRune RuneError"
  by (simp add: ValidRune_def RuneError_def MaxRune_def)

lemma Decode_valid: "DecodeRuneInString s = (r, w) \<Longrightarrow> ValidRune r"
proof (cases s)
  case Nil
  then show "DecodeRuneInString s = (r, w) \<Longrightarrow> ValidRune r"
    by (simp add: ValidRune_RuneError)
next
  case (Cons c0 t)
  assume d: "DecodeRuneInString s = (r, w)"
  show "ValidRune r"
  proof (cases "byte c0 < RuneSelf")
    case True
    then show ?thesis using d Cons by (auto simp: ValidRune_def RuneSelf_def)
  next
    case False
    show ?thesis
    proof (cases "utf8_first (byte c0)")
      case None
      then show ?thesis using d Cons False by (simp add: ValidRune_RuneError)
    next
      case (Some x)
      then obtain sz lo hi where f: "utf8_first (byte c0) = Some (sz, lo, hi)"
        by (cases x) auto
      from utf8_first_Some [OF f] consider "sz = 2" | "sz = 3" | "sz = 4" by blast
      then show ?thesis
      proof cases
        case 1
        then show ?thesis
          using d Cons False f valid2 [of "byte c0" lo hi "byte (t ! 0)"]
          by (auto simp: Let_def ValidRune_RuneError split: if_splits)
      next
        case 2
        then show ?thesis
          using d Cons False f valid3 [of "byte c0" lo hi "byte (t ! 0)" "byte (t ! 1)"]
          by (auto simp: Let_def ValidRune_RuneError split: if_splits)
      next
        case 3
        then show ?thesis
          using d Cons False f
            valid4 [of "byte c0" lo hi "byte (t ! 0)" "byte (t ! 1)" "byte (t ! 2)"]
          by (auto simp: Let_def ValidRune_RuneError split: if_splits)
      qed
    qed
  qed
qed


lemma radix2:
  fixes a b d r :: nat
  assumes "d = a div 64" "r = a mod 64"
  shows "d * 64 + r = a"
  using assms by simp

lemma radix3:
  fixes n :: nat
  shows "n div 4096 * 4096 + n div 64 mod 64 * 64 + n mod 64 = n"
proof -
  define a where "a = n div 64"
  define b where "b = a div 64"
  define r where "r = a mod 64"
  define q where "q = n mod 64"
  have "n div 4096 = b" by (simp add: a_def b_def div_mult2_eq [symmetric])
  moreover have "b * 64 + r = a" by (rule radix2 [OF b_def r_def])
  moreover have "a * 64 + q = n" by (rule radix2 [OF a_def q_def])
  ultimately show ?thesis unfolding a_def [symmetric] r_def [symmetric] q_def [symmetric]
    by (auto simp: algebra_simps)
qed

lemma radix4:
  fixes n :: nat
  shows "n div 262144 * 262144 + n div 4096 mod 64 * 4096 + n div 64 mod 64 * 64 + n mod 64 = n"
proof -
  define a where "a = n div 4096"
  define b where "b = a div 64"
  define r where "r = a mod 64"
  have "n div 262144 = b" by (simp add: a_def b_def div_mult2_eq [symmetric])
  moreover have "b * 64 + r = a" by (rule radix2 [OF b_def r_def])
  ultimately have "n div 262144 * 262144 + n div 4096 mod 64 * 4096 = n div 4096 * 4096"
    unfolding a_def [symmetric] r_def [symmetric] by (auto simp: algebra_simps)
  then show ?thesis using radix3 [of n] by simp
qed

lemma enc2:
  fixes n :: nat
  assumes "0x80 \<le> n" "n \<le> 0x7FF"
  defines "b0 \<equiv> 0xC0 + n div 64" and "b1 \<equiv> 0x80 + n mod 64"
  shows "utf8_first b0 = Some (2, 0x80, 0xBF)" "b0 < 256" "b1 < 256" "0x80 \<le> b0"
    "0x80 \<le> b1" "b1 \<le> 0xBF" "b0 mod 32 * 64 + b1 mod 64 = n"
proof -
  have d: "2 \<le> n div 64" "n div 64 \<le> 31" using assms(1,2) by simp_all
  show "utf8_first b0 = Some (2, 0x80, 0xBF)" using d by (simp add: utf8_first_def b0_def)
  show "b0 < 256" "b1 < 256" "0x80 \<le> b0" "0x80 \<le> b1" "b1 \<le> 0xBF"
    using d by (simp_all add: b0_def b1_def)
  have "b0 mod 32 = n div 64" using d mod_lead(1) [of b0] by (simp add: b0_def)
  moreover have "b1 mod 64 = n mod 64" using mod_lead(4) [of b1] by (simp add: b1_def)
  ultimately show "b0 mod 32 * 64 + b1 mod 64 = n" by simp
qed

lemma enc3:
  fixes n :: nat
  assumes "0x800 \<le> n" "n \<le> 0xFFFF" "n < 0xD800 \<or> 0xDFFF < n"
  defines "b0 \<equiv> 0xE0 + n div 4096" and "b1 \<equiv> 0x80 + n div 64 mod 64"
    and "b2 \<equiv> 0x80 + n mod 64"
  shows "\<exists>lo hi. utf8_first b0 = Some (3, lo, hi) \<and> lo \<le> b1 \<and> b1 \<le> hi"
    "b0 < 256" "b1 < 256" "b2 < 256" "0x80 \<le> b0" "0x80 \<le> b2" "b2 \<le> 0xBF"
    "b0 mod 16 * 4096 + b1 mod 64 * 64 + b2 mod 64 = n"
proof -
  have d: "n div 4096 \<le> 15" using assms(2) by simp
  have e0: "n div 4096 = 0 \<Longrightarrow> 32 \<le> n div 64 mod 64" using assms(1) by simp
  have ed: "n div 4096 = 13 \<Longrightarrow> n div 64 mod 64 \<le> 31"
  proof -
    assume a: "n div 4096 = 13"
    have "n div 64 div 64 = n div 4096" by (simp add: div_mult2_eq [symmetric])
    moreover have "n < 0xD800" using a assms(3) by auto
    then have "n div 64 < 864" by simp
    ultimately show ?thesis using a by (simp add: mod_off [of 13 64 "n div 64"])
  qed
  show "\<exists>lo hi. utf8_first b0 = Some (3, lo, hi) \<and> lo \<le> b1 \<and> b1 \<le> hi"
    using d e0 ed by (auto simp: utf8_first_def b0_def b1_def)
  show "b0 < 256" "b1 < 256" "b2 < 256" "0x80 \<le> b0" "0x80 \<le> b2" "b2 \<le> 0xBF"
    using d by (simp_all add: b0_def b1_def b2_def)
  have "b0 mod 16 = n div 4096" using d mod_lead(2) [of b0] by (simp add: b0_def)
  moreover have "b1 mod 64 = n div 64 mod 64" using mod_lead(4) [of b1] by (simp add: b1_def)
  moreover have "b2 mod 64 = n mod 64" using mod_lead(4) [of b2] by (simp add: b2_def)
  ultimately show "b0 mod 16 * 4096 + b1 mod 64 * 64 + b2 mod 64 = n"
    using radix3 [of n] by simp
qed

lemma enc4:
  fixes n :: nat
  assumes "0x10000 \<le> n" "n \<le> 0x10FFFF"
  defines "b0 \<equiv> 0xF0 + n div 262144" and "b1 \<equiv> 0x80 + n div 4096 mod 64"
    and "b2 \<equiv> 0x80 + n div 64 mod 64" and "b3 \<equiv> 0x80 + n mod 64"
  shows "\<exists>lo hi. utf8_first b0 = Some (4, lo, hi) \<and> lo \<le> b1 \<and> b1 \<le> hi"
    "b0 < 256" "b1 < 256" "b2 < 256" "b3 < 256" "0x80 \<le> b0" "0x80 \<le> b2" "b2 \<le> 0xBF"
    "0x80 \<le> b3" "b3 \<le> 0xBF"
    "b0 mod 8 * 262144 + b1 mod 64 * 4096 + b2 mod 64 * 64 + b3 mod 64 = n"
proof -
  have d: "n div 262144 \<le> 4" using assms(2) by simp
  have e0: "n div 262144 = 0 \<Longrightarrow> 16 \<le> n div 4096 mod 64" using assms(1) by simp
  have e4: "n div 262144 = 4 \<Longrightarrow> n div 4096 mod 64 \<le> 15"
  proof -
    assume a: "n div 262144 = 4"
    have "n div 4096 div 64 = n div 262144" by (simp add: div_mult2_eq [symmetric])
    moreover have "n div 4096 < 272" using assms(2) by simp
    ultimately show ?thesis using a by (simp add: mod_off [of 4 64 "n div 4096"])
  qed
  show "\<exists>lo hi. utf8_first b0 = Some (4, lo, hi) \<and> lo \<le> b1 \<and> b1 \<le> hi"
    using d e0 e4 by (auto simp: utf8_first_def b0_def b1_def)
  show "b0 < 256" "b1 < 256" "b2 < 256" "b3 < 256" "0x80 \<le> b0" "0x80 \<le> b2" "b2 \<le> 0xBF"
    "0x80 \<le> b3" "b3 \<le> 0xBF"
    using d by (simp_all add: b0_def b1_def b2_def b3_def)
  have "b0 mod 8 = n div 262144" using d mod_lead(3) [of b0] by (simp add: b0_def)
  moreover have "b1 mod 64 = n div 4096 mod 64" using mod_lead(4) [of b1] by (simp add: b1_def)
  moreover have "b2 mod 64 = n div 64 mod 64" using mod_lead(4) [of b2] by (simp add: b2_def)
  moreover have "b3 mod 64 = n mod 64" using mod_lead(4) [of b3] by (simp add: b3_def)
  ultimately show "b0 mod 8 * 262144 + b1 mod 64 * 4096 + b2 mod 64 * 64 + b3 mod 64 = n"
    using radix4 [of n] by simp
qed

lemma Decode_two:
  assumes "utf8_first b0 = Some (2, lo, hi)" "b0 < 256" "b1 < 256" "0x80 \<le> b0"
    "lo \<le> b1" "b1 \<le> hi"
  shows "DecodeRuneInString (char_of b0 # char_of b1 # t)
    = (int (b0 mod 32 * 64 + b1 mod 64), 2)"
  using assms by (simp add: Let_def RuneSelf_def)

lemma Decode_three:
  assumes "utf8_first b0 = Some (3, lo, hi)" "b0 < 256" "b1 < 256" "b2 < 256" "0x80 \<le> b0"
    "lo \<le> b1" "b1 \<le> hi" "0x80 \<le> b2" "b2 \<le> 0xBF"
  shows "DecodeRuneInString (char_of b0 # char_of b1 # char_of b2 # t)
    = (int (b0 mod 16 * 4096 + b1 mod 64 * 64 + b2 mod 64), 3)"
  using assms by (simp add: Let_def RuneSelf_def)

lemma Decode_four:
  assumes "utf8_first b0 = Some (4, lo, hi)" "b0 < 256" "b1 < 256" "b2 < 256" "b3 < 256"
    "0x80 \<le> b0" "lo \<le> b1" "b1 \<le> hi" "0x80 \<le> b2" "b2 \<le> 0xBF" "0x80 \<le> b3" "b3 \<le> 0xBF"
  shows "DecodeRuneInString (char_of b0 # char_of b1 # char_of b2 # char_of b3 # t)
    = (int (b0 mod 8 * 262144 + b1 mod 64 * 4096 + b2 mod 64 * 64 + b3 mod 64), 4)"
  using assms by (simp add: Let_def RuneSelf_def)


lemma EncodeRune_cases:
  fixes r :: rune
  defines "n \<equiv> nat r"
  shows "0 \<le> r \<Longrightarrow> r \<le> 0x7F \<Longrightarrow> EncodeRune r = [char_of n]"
    and "0x80 \<le> r \<Longrightarrow> r \<le> 0x7FF \<Longrightarrow>
         EncodeRune r = [char_of (0xC0 + n div 64), char_of (0x80 + n mod 64)]"
    and "0x800 \<le> r \<Longrightarrow> r \<le> 0xFFFF \<Longrightarrow> r < 0xD800 \<or> 0xDFFF < r \<Longrightarrow>
         EncodeRune r = [char_of (0xE0 + n div 4096), char_of (0x80 + n div 64 mod 64),
                         char_of (0x80 + n mod 64)]"
    and "0x10000 \<le> r \<Longrightarrow> r \<le> 0x10FFFF \<Longrightarrow>
         EncodeRune r = [char_of (0xF0 + n div 262144), char_of (0x80 + n div 4096 mod 64),
                         char_of (0x80 + n div 64 mod 64), char_of (0x80 + n mod 64)]"
    and "r < 0 \<or> 0x10FFFF < r \<or> (0xD800 \<le> r \<and> r \<le> 0xDFFF) \<Longrightarrow>
         EncodeRune r = [char_of (0xEF :: nat), char_of (0xBF :: nat), char_of (0xBD :: nat)]"
  unfolding n_def EncodeRune_def Let_def MaxRune_def by auto


lemma Decode_Encode:
  assumes "ValidRune r"
  shows "DecodeRuneInString (EncodeRune r @ t) = (r, length (EncodeRune r))"
proof -
  define n where "n = nat r"
  have r: "r = int n" "0 \<le> r" using assms by (auto simp: n_def ValidRune_def)
  have v: "n < 0xD800 \<or> (0xDFFF < n \<and> n \<le> 0x10FFFF)"
    using assms unfolding r(1) by (auto simp: ValidRune_def MaxRune_def)
  then have "n \<le> 0x7F \<or> (0x80 \<le> n \<and> n \<le> 0x7FF)
      \<or> (0x800 \<le> n \<and> n \<le> 0xFFFF \<and> (n < 0xD800 \<or> 0xDFFF < n))
      \<or> (0x10000 \<le> n \<and> n \<le> 0x10FFFF)"
    by arith
  then consider "n \<le> 0x7F" | "0x80 \<le> n" "n \<le> 0x7FF"
    | "0x800 \<le> n" "n \<le> 0xFFFF" "n < 0xD800 \<or> 0xDFFF < n"
    | "0x10000 \<le> n" "n \<le> 0x10FFFF"
    by blast
  then show ?thesis
  proof cases
    case 1
    then have "r \<le> 0x7F" unfolding r(1) by simp
    then have "EncodeRune r = [char_of n]"
      using EncodeRune_cases(1) [OF r(2)] by (simp add: n_def)
    moreover have "DecodeRuneInString (char_of n # t) = (r, 1)"
      using 1 r(1) by (simp add: RuneSelf_def)
    ultimately show ?thesis by (simp del: DecodeRuneInString.simps)
  next
    case 2
    then have "0x80 \<le> r" "r \<le> 0x7FF" unfolding r(1) by simp_all
    then have e: "EncodeRune r = [char_of (0xC0 + n div 64), char_of (0x80 + n mod 64)]"
      using EncodeRune_cases(2) [of r] by (simp add: n_def)
    note a = enc2 [OF 2]
    have "DecodeRuneInString (char_of (0xC0 + n div 64) # char_of (0x80 + n mod 64) # t)
       = (r, 2)"
      using Decode_two [OF a(1,2,3,4,5,6), of t] a(7) r(1) by simp
    then show ?thesis unfolding e by (simp del: DecodeRuneInString.simps)
  next
    case 3
    then have "0x800 \<le> r" "r \<le> 0xFFFF" "r < 0xD800 \<or> 0xDFFF < r" unfolding r(1) by auto
    then have e: "EncodeRune r = [char_of (0xE0 + n div 4096), char_of (0x80 + n div 64 mod 64),
        char_of (0x80 + n mod 64)]"
      using EncodeRune_cases(3) [of r] by (simp add: n_def)
    note a = enc3 [OF 3]
    obtain lo hi where f: "utf8_first (0xE0 + n div 4096) = Some (3, lo, hi)"
        "lo \<le> 0x80 + n div 64 mod 64" "0x80 + n div 64 mod 64 \<le> hi"
      using a(1) by blast
    have "DecodeRuneInString (char_of (0xE0 + n div 4096) # char_of (0x80 + n div 64 mod 64)
         # char_of (0x80 + n mod 64) # t) = (r, 3)"
      using Decode_three [OF f(1) a(2,3,4,5) f(2,3) a(6,7), of t] a(8) r(1) by simp
    then show ?thesis unfolding e by (simp del: DecodeRuneInString.simps)
  next
    case 4
    then have "0x10000 \<le> r" "r \<le> 0x10FFFF" unfolding r(1) by simp_all
    then have e: "EncodeRune r = [char_of (0xF0 + n div 262144),
        char_of (0x80 + n div 4096 mod 64), char_of (0x80 + n div 64 mod 64),
        char_of (0x80 + n mod 64)]"
      using EncodeRune_cases(4) [of r] by (simp add: n_def)
    note a = enc4 [OF 4]
    obtain lo hi where f: "utf8_first (0xF0 + n div 262144) = Some (4, lo, hi)"
        "lo \<le> 0x80 + n div 4096 mod 64" "0x80 + n div 4096 mod 64 \<le> hi"
      using a(1) by blast
    have "DecodeRuneInString (char_of (0xF0 + n div 262144) # char_of (0x80 + n div 4096 mod 64)
         # char_of (0x80 + n div 64 mod 64) # char_of (0x80 + n mod 64) # t) = (r, 4)"
      using Decode_four [OF f(1) a(2,3,4,5,6) f(2,3) a(7,8,9,10), of t] a(11) r(1) by simp
    then show ?thesis unfolding e by (simp del: DecodeRuneInString.simps)
  qed
qed

text \<open>Encoding the rune that was decoded gives the bytes it was decoded from.\<close>

lemma split2:
  fixes x y :: nat
  assumes "y < 64"
  shows "(x * 64 + y) div 64 = x" "(x * 64 + y) mod 64 = y"
  using assms by simp_all

lemma split3:
  fixes x y z :: nat
  assumes "y < 64" "z < 64"
  shows "(x * 4096 + y * 64 + z) div 4096 = x" "(x * 4096 + y * 64 + z) div 64 mod 64 = y"
    "(x * 4096 + y * 64 + z) mod 64 = z"
proof -
  have e: "x * 4096 + y * 64 + z = (x * 64 + y) * 64 + z" by simp
  have d: "(x * 4096 + y * 64 + z) div 64 = x * 64 + y"
    unfolding e using assms(2) by (rule split2(1))
  show "(x * 4096 + y * 64 + z) div 64 mod 64 = y"
    unfolding d using assms(1) by (rule split2(2))
  show "(x * 4096 + y * 64 + z) mod 64 = z"
    unfolding e using assms(2) by (rule split2(2))
  have "(x * 4096 + y * 64 + z) div 4096 = (x * 4096 + y * 64 + z) div 64 div 64"
    by (simp add: div_mult2_eq [symmetric])
  then show "(x * 4096 + y * 64 + z) div 4096 = x"
    unfolding d using split2(1) [OF assms(1)] by simp
qed

lemma split4:
  fixes x y z u :: nat
  assumes "y < 64" "z < 64" "u < 64"
  shows "(x * 262144 + y * 4096 + z * 64 + u) div 262144 = x"
    "(x * 262144 + y * 4096 + z * 64 + u) div 4096 mod 64 = y"
    "(x * 262144 + y * 4096 + z * 64 + u) div 64 mod 64 = z"
    "(x * 262144 + y * 4096 + z * 64 + u) mod 64 = u"
proof -
  have e: "x * 262144 + y * 4096 + z * 64 + u = (x * 64 + y) * 4096 + z * 64 + u" by simp
  show "(x * 262144 + y * 4096 + z * 64 + u) div 64 mod 64 = z"
    by (subst e) (rule split3(2) [OF assms(2,3)])
  show "(x * 262144 + y * 4096 + z * 64 + u) mod 64 = u"
    by (subst e) (rule split3(3) [OF assms(2,3)])
  have d: "(x * 262144 + y * 4096 + z * 64 + u) div 4096 = x * 64 + y"
    by (subst e) (rule split3(1) [OF assms(2,3)])
  show "(x * 262144 + y * 4096 + z * 64 + u) div 4096 mod 64 = y"
    unfolding d using assms(1) by (rule split2(2))
  have "(x * 262144 + y * 4096 + z * 64 + u) div 262144
      = (x * 262144 + y * 4096 + z * 64 + u) div 4096 div 64"
    by (simp add: div_mult2_eq [symmetric])
  then show "(x * 262144 + y * 4096 + z * 64 + u) div 262144 = x"
    unfolding d using split2(1) [OF assms(1)] by simp
qed


lemma dec_enc2:
  assumes "utf8_first b0 = Some (2, lo, hi)" "lo \<le> b1" "b1 \<le> hi"
  defines "n \<equiv> b0 mod 32 * 64 + b1 mod 64"
  shows "0x80 \<le> n" "n \<le> 0x7FF" "0xC0 + n div 64 = b0" "0x80 + n mod 64 = b1"
proof -
  have b: "0xC2 \<le> b0" "b0 \<le> 0xDF" "0x80 \<le> b1" "b1 \<le> 0xBF"
    using assms(1,2,3) by (auto simp: utf8_first_def split: if_splits)
  have n: "n = (b0 - 0xC0) * 64 + (b1 - 0x80)"
    using b by (simp add: n_def mod_lead)
  have y: "b1 - 0x80 < 64" using b by simp
  show "0x80 \<le> n" "n \<le> 0x7FF" using b unfolding n by simp_all
  show "0xC0 + n div 64 = b0" unfolding n split2(1) [OF y] using b by simp
  show "0x80 + n mod 64 = b1" unfolding n split2(2) [OF y] using b by simp
qed

lemma dec_enc3:
  assumes "utf8_first b0 = Some (3, lo, hi)" "lo \<le> b1" "b1 \<le> hi" "0x80 \<le> b2" "b2 \<le> 0xBF"
  defines "n \<equiv> b0 mod 16 * 4096 + b1 mod 64 * 64 + b2 mod 64"
  shows "0x800 \<le> n" "n \<le> 0xFFFF" "n < 0xD800 \<or> 0xDFFF < n"
    "0xE0 + n div 4096 = b0" "0x80 + n div 64 mod 64 = b1" "0x80 + n mod 64 = b2"
proof -
  have b: "0xE0 \<le> b0" "b0 \<le> 0xEF" "0x80 \<le> b1" "b1 \<le> 0xBF"
    "b0 = 0xE0 \<Longrightarrow> 0xA0 \<le> b1" "b0 = 0xED \<Longrightarrow> b1 \<le> 0x9F"
    using assms(1,2,3) by (auto simp: utf8_first_def split: if_splits)
  have n: "n = (b0 - 0xE0) * 4096 + (b1 - 0x80) * 64 + (b2 - 0x80)"
    using b assms(4,5) by (simp add: n_def mod_lead)
  have y: "b1 - 0x80 < 64" "b2 - 0x80 < 64" using b assms(4,5) by simp_all
  show "0x800 \<le> n" using b assms(4,5) unfolding n by (cases "b0 = 0xE0") auto
  show "n \<le> 0xFFFF" using b assms(4,5) unfolding n by simp
  show "n < 0xD800 \<or> 0xDFFF < n"
    using b assms(4,5) unfolding n by (cases "b0 = 0xED"; cases "b0 < 0xED") auto
  show "0xE0 + n div 4096 = b0" unfolding n split3(1) [OF y] using b by simp
  show "0x80 + n div 64 mod 64 = b1" unfolding n split3(2) [OF y] using b by simp
  show "0x80 + n mod 64 = b2" unfolding n split3(3) [OF y] using assms(4) by simp
qed

lemma dec_enc4:
  assumes "utf8_first b0 = Some (4, lo, hi)" "lo \<le> b1" "b1 \<le> hi" "0x80 \<le> b2" "b2 \<le> 0xBF"
    "0x80 \<le> b3" "b3 \<le> 0xBF"
  defines "n \<equiv> b0 mod 8 * 262144 + b1 mod 64 * 4096 + b2 mod 64 * 64 + b3 mod 64"
  shows "0x10000 \<le> n" "n \<le> 0x10FFFF"
    "0xF0 + n div 262144 = b0" "0x80 + n div 4096 mod 64 = b1" "0x80 + n div 64 mod 64 = b2"
    "0x80 + n mod 64 = b3"
proof -
  have b: "0xF0 \<le> b0" "b0 \<le> 0xF4" "0x80 \<le> b1" "b1 \<le> 0xBF"
    "b0 = 0xF0 \<Longrightarrow> 0x90 \<le> b1" "b0 = 0xF4 \<Longrightarrow> b1 \<le> 0x8F"
    using assms(1,2,3) by (auto simp: utf8_first_def split: if_splits)
  have n: "n = (b0 - 0xF0) * 262144 + (b1 - 0x80) * 4096 + (b2 - 0x80) * 64 + (b3 - 0x80)"
    using b assms(4,5,6,7) by (simp add: n_def mod_lead)
  have y: "b1 - 0x80 < 64" "b2 - 0x80 < 64" "b3 - 0x80 < 64" using b assms(4,5,6,7) by simp_all
  show "0x10000 \<le> n" using b assms(4,5,6,7) unfolding n by (cases "b0 = 0xF0") auto
  show "n \<le> 0x10FFFF" using b assms(4,5,6,7) unfolding n by (cases "b0 = 0xF4") auto
  show "0xF0 + n div 262144 = b0" unfolding n split4(1) [OF y] using b by simp
  show "0x80 + n div 4096 mod 64 = b1" unfolding n split4(2) [OF y] using b by simp
  show "0x80 + n div 64 mod 64 = b2" unfolding n split4(3) [OF y] using assms(4) by simp
  show "0x80 + n mod 64 = b3" unfolding n split4(4) [OF y] using assms(6) by simp
qed


lemma Encode_Decode:
  assumes d: "DecodeRuneInString s = (r, w)" and ne: "(r, w) \<noteq> (RuneError, 1)" "s \<noteq> []"
  shows "EncodeRune r = take w s"
proof -
  obtain c0 t where s: "s = c0 # t" using ne(2) by (cases s) auto
  show ?thesis
  proof (cases "byte c0 < RuneSelf")
    case True
    then have "r = int (byte c0)" "w = 1" using d s by auto
    moreover have "int (byte c0) \<le> 0x7F" using True by (simp add: RuneSelf_def)
    ultimately show ?thesis
      using EncodeRune_cases(1) [of r] s by simp
  next
    case False
    then obtain sz lo hi where f: "utf8_first (byte c0) = Some (sz, lo, hi)"
      using d s ne(1) by (cases "utf8_first (byte c0)") (auto simp: Let_def)
    from utf8_first_Some [OF f] consider "sz = 2" | "sz = 3" | "sz = 4" by blast
    then show ?thesis
    proof cases
      case 1
      then obtain c1 t1 where t: "t = c1 # t1"
        using d s False f ne(1) by (cases t) (auto simp: Let_def)
      have b: "lo \<le> byte c1" "byte c1 \<le> hi"
        and r: "r = int (byte c0 mod 32 * 64 + byte c1 mod 64)" "w = 2"
        using d s t False f ne(1) 1 by (auto simp: Let_def split: if_splits)
      define n where "n = byte c0 mod 32 * 64 + byte c1 mod 64"
      have rn: "r = int n" using r(1) by (simp add: n_def)
      note a = dec_enc2 [OF f [unfolded 1] b, folded n_def]
      have "EncodeRune r = [char_of (0xC0 + n div 64), char_of (0x80 + n mod 64)]"
        using EncodeRune_cases(2) [of r] a(1,2) by (simp add: rn)
      then have "EncodeRune r = [char_of (byte c0), char_of (byte c1)]"
        unfolding a(3,4) .
      then show ?thesis using s t r(2) by simp
    next
      case 2
      then obtain c1 c2 t2 where t: "t = c1 # c2 # t2"
        using d s False f ne(1) by (cases t rule: list_shapes) (auto simp: Let_def)
      have b: "lo \<le> byte c1" "byte c1 \<le> hi" "0x80 \<le> byte c2" "byte c2 \<le> 0xBF"
        and r: "r = int (byte c0 mod 16 * 4096 + byte c1 mod 64 * 64 + byte c2 mod 64)" "w = 3"
        using d s t False f ne(1) 2 by (auto simp: Let_def split: if_splits)
      define n where "n = byte c0 mod 16 * 4096 + byte c1 mod 64 * 64 + byte c2 mod 64"
      have rn: "r = int n" using r(1) by (simp add: n_def)
      note a = dec_enc3 [OF f [unfolded 2] b, folded n_def]
      have "EncodeRune r = [char_of (0xE0 + n div 4096), char_of (0x80 + n div 64 mod 64),
          char_of (0x80 + n mod 64)]"
        using EncodeRune_cases(3) [of r] a(1,2,3) by (auto simp: rn)
      then have "EncodeRune r = [char_of (byte c0), char_of (byte c1), char_of (byte c2)]"
        unfolding a(4,5,6) .
      then show ?thesis using s t r(2) by simp
    next
      case 3
      then obtain c1 c2 c3 t3 where t: "t = c1 # c2 # c3 # t3"
        using d s False f ne(1) by (cases t rule: list_shapes) (auto simp: Let_def)
      have b: "lo \<le> byte c1" "byte c1 \<le> hi" "0x80 \<le> byte c2" "byte c2 \<le> 0xBF"
          "0x80 \<le> byte c3" "byte c3 \<le> 0xBF"
        and r: "r = int (byte c0 mod 8 * 262144 + byte c1 mod 64 * 4096
                   + byte c2 mod 64 * 64 + byte c3 mod 64)" "w = 4"
        using d s t False f ne(1) 3 by (auto simp: Let_def split: if_splits)
      define n where "n = byte c0 mod 8 * 262144 + byte c1 mod 64 * 4096
          + byte c2 mod 64 * 64 + byte c3 mod 64"
      have rn: "r = int n" using r(1) by (simp add: n_def)
      note a = dec_enc4 [OF f [unfolded 3] b, folded n_def]
      have "EncodeRune r = [char_of (0xF0 + n div 262144), char_of (0x80 + n div 4096 mod 64),
          char_of (0x80 + n div 64 mod 64), char_of (0x80 + n mod 64)]"
        using EncodeRune_cases(4) [of r] a(1,2) by (simp add: rn)
      then have "EncodeRune r = [char_of (byte c0), char_of (byte c1), char_of (byte c2),
          char_of (byte c3)]"
        unfolding a(3,4,5,6) .
      then show ?thesis using s t r(2) by simp
    qed
  qed
qed

subsection \<open>Mapping the runes of a string\<close>

lemma EncodeRune_nonempty: "EncodeRune r \<noteq> []"
  by (simp add: EncodeRune_def Let_def)

lemma Map_Encode:
  assumes "ValidRune r"
  shows "strings_Map f (EncodeRune r @ t)
     = (if 0 \<le> f r then EncodeRune (f r) else []) @ strings_Map f t"
proof -
  obtain c cs where e: "EncodeRune r = c # cs"
    using EncodeRune_nonempty [of r] by (cases "EncodeRune r") auto
  have "DecodeRuneInString (c # cs @ t) = (r, Suc (length cs))"
    using Decode_Encode [OF assms, of t] e by simp
  then show ?thesis
    unfolding e by (simp del: DecodeRuneInString.simps)
qed

lemma Map_Map:
  assumes "\<And>r. ValidRune r \<Longrightarrow> ValidRune (f r) \<and> f (f r) = f r"
  shows "strings_Map f (strings_Map f s @ t) = strings_Map f s @ strings_Map f t"
  using assms
proof (induction f s arbitrary: t rule: strings_Map.induct)
  case (1 mapping)
  then show ?case by simp
next
  case (2 mapping c s)
  obtain r w where d: "DecodeRuneInString (c # s) = (r, w)"
    by (cases "DecodeRuneInString (c # s)") auto
  have v: "ValidRune r" by (rule Decode_valid [OF d])
  have fv: "ValidRune (mapping r)" "mapping (mapping r) = mapping r" "0 \<le> mapping r"
    using "2.prems" [OF v] by (auto simp: ValidRune_def)
  have m: "strings_Map mapping (c # s)
      = EncodeRune (mapping r) @ strings_Map mapping (drop w (c # s))"
    using d fv(3) by (simp del: DecodeRuneInString.simps)
  have ih: "strings_Map mapping (strings_Map mapping (drop w (c # s)) @ t)
      = strings_Map mapping (drop w (c # s)) @ strings_Map mapping t"
    using "2.IH" [OF d [symmetric] refl, of t] "2.prems" by simp
  show ?case
    unfolding m using Map_Encode [OF fv(1), of mapping] fv(2,3) ih
    by (simp del: strings_Map.simps)
qed

lemma Map_ascii:
  "list_all (\<lambda>c. byte c < RuneSelf) s \<Longrightarrow>
   strings_Map (unicode_ToLower tbl) s
     = map (\<lambda>c. if 0x41 \<le> byte c \<and> byte c \<le> 0x5A then char_of (byte c + 0x20) else c) s"
proof (induction s)
  case Nil
  then show ?case by simp
next
  case (Cons c s)
  then have lt: "byte c < 0x80" by (simp add: RuneSelf_def)
  have d: "DecodeRuneInString (c # s) = (int (byte c), 1)" by (rule Decode_ascii [OF lt])
  have e: "EncodeRune (unicode_ToLower tbl (int (byte c)))
      = [if 0x41 \<le> byte c \<and> byte c \<le> 0x5A then char_of (byte c + 0x20) else c]"
    using lt EncodeRune_cases(1) [of "unicode_ToLower tbl (int (byte c))"]
    by (auto simp: unicode_ToLower_def nat_add_distrib)
  have "0 \<le> unicode_ToLower tbl (int (byte c))"
    using lt by (simp add: unicode_ToLower_def)
  then show ?case
    using Cons d e by (simp del: DecodeRuneInString.simps)
qed

lemma ToLower_Map: "strings_ToLower tbl s = strings_Map (unicode_ToLower tbl) s"
  by (simp add: strings_ToLower_def Map_ascii)

subsection \<open>Trimming\<close>

lemma lastIndexFunc_Nil: "lastIndexFunc [] f truth = - 1"
  by (simp add: lastIndexFunc.simps)

lemma lastIndexFunc_step:
  assumes "p \<noteq> []" "DecodeLastRuneInString p = (r, w)"
  shows "lastIndexFunc p f False =
     (if f r then lastIndexFunc (take (length p - w) p) f False else int (length p) - int w)"
  using assms DecodeLast_width [OF assms]
  by (subst lastIndexFunc.simps) (auto simp: Let_def nat_diff_distrib')

lemma lastIndex_sliceEnd:
  assumes nf: "\<not> f RuneError"
  shows "at_boundary q \<Longrightarrow>
     sliceEnd (p @ q) (lastIndexFunc p f False) = sliceEnd p (lastIndexFunc p f False)
     \<and> sliceEnd p (lastIndexFunc p f False) \<le> length p
     \<and> at_boundary (drop (sliceEnd p (lastIndexFunc p f False)) p @ q)
     \<and> (sliceEnd p (lastIndexFunc p f False) = 0
        \<or> \<not> f (fst (DecodeLastRuneInString (take (sliceEnd p (lastIndexFunc p f False)) p))))"
proof (induction "length p" arbitrary: p q rule: less_induct)
  case less
  show ?case
  proof (cases "p = []")
    case True
    then show ?thesis using less.prems by (simp add: lastIndexFunc_Nil sliceEnd_def)
  next
    case False
    obtain r w where d: "DecodeLastRuneInString p = (r, w)"
      by (cases "DecodeLastRuneInString p") auto
    have w: "1 \<le> w" "w \<le> length p" using DecodeLast_width [OF False d] by auto
    show ?thesis
    proof (cases "f r")
      case nfr: False
      have li: "lastIndexFunc p f False = int (length p) - int w"
        using lastIndexFunc_step [OF False d] nfr by simp
      have "sliceEnd (p @ q) (int (length p) - int w) = length p"
        by (rule sliceEnd_last [OF False d less.prems])
      moreover have "sliceEnd p (int (length p) - int w) = length p"
        using sliceEnd_last [OF False d, of "[]"] by (simp add: at_boundary_def)
      ultimately show ?thesis using li less.prems nfr d by simp
    next
      case fr: True
      let ?p' = "take (length p - w) p"
      let ?d = "drop (length p - w) p"
      let ?li = "lastIndexFunc ?p' f False"
      have li: "lastIndexFunc p f False = ?li"
        using lastIndexFunc_step [OF False d] fr by simp
      have r: "r \<noteq> RuneError" using fr nf by auto
      have len: "length ?p' < length p" using w False by simp
      have b1: "at_boundary (?d @ q)" by (rule DecodeLast_RuneStart [OF False d r])
      have b2: "at_boundary ?d" using DecodeLast_RuneStart [OF False d r, of "[]"] by simp
      note ih1 = less.hyps [OF len b1]
      note ih2 = less.hyps [OF len b2]
      have pq: "?p' @ ?d @ q = p @ q" "?p' @ ?d = p"
        by (simp_all only: append_assoc [symmetric] append_take_drop_id)
      have lp: "length ?p' = length p - w" using w by simp
      have e: "sliceEnd ?p' ?li \<le> length p - w"
        using ih1 [THEN conjunct2, THEN conjunct1] unfolding lp .
      have c1: "sliceEnd (p @ q) ?li = sliceEnd ?p' ?li"
        using ih1 [THEN conjunct1] unfolding pq .
      have c2: "sliceEnd p ?li = sliceEnd ?p' ?li"
        using ih2 [THEN conjunct1] unfolding pq .
      have c3: "drop (sliceEnd ?p' ?li) p = drop (sliceEnd ?p' ?li) ?p' @ ?d"
        using e lp by (metis pq(2) drop_append diff_is_0_eq drop0)
      have c4: "take (sliceEnd ?p' ?li) p = take (sliceEnd ?p' ?li) ?p'"
        using e by (simp add: min.absorb1)
      have c5: "at_boundary (drop (sliceEnd ?p' ?li) ?p' @ ?d @ q)"
        using ih1 [THEN conjunct2, THEN conjunct2, THEN conjunct1] .
      have c6: "sliceEnd ?p' ?li = 0
          \<or> \<not> f (fst (DecodeLastRuneInString (take (sliceEnd ?p' ?li) ?p')))"
        using ih1 [THEN conjunct2, THEN conjunct2, THEN conjunct2] .
      have "sliceEnd ?p' ?li \<le> length p" using e by simp
      then show ?thesis
        unfolding li c1 c2 c3 c4 using c5 c6 by simp
    qed
  qed
qed

lemma TrimRightFunc_Nil: "TrimRightFunc [] f = []"
  by (simp add: TrimRightFunc_def)

lemma TrimRightFunc_keep:
  assumes "p \<noteq> []" "\<not> f (fst (DecodeLastRuneInString p))"
  shows "TrimRightFunc p f = p"
proof -
  obtain r w where d: "DecodeLastRuneInString p = (r, w)"
    by (cases "DecodeLastRuneInString p") auto
  have "sliceEnd p (int (length p) - int w) = length p"
    using sliceEnd_last [OF assms(1) d, of "[]"] by (simp add: at_boundary_def)
  then show ?thesis
    using lastIndexFunc_step [OF assms(1) d, of f] assms(2) d by (simp add: TrimRightFunc_def)
qed

lemma TrimRightFunc_step:
  assumes "\<not> f RuneError" "p \<noteq> []" "DecodeLastRuneInString p = (r, w)" "f r"
  shows "TrimRightFunc p f = TrimRightFunc (take (length p - w) p) f"
proof -
  let ?p' = "take (length p - w) p"
  let ?d = "drop (length p - w) p"
  let ?li = "lastIndexFunc ?p' f False"
  have w: "1 \<le> w" "w \<le> length p" using DecodeLast_width [OF assms(2,3)] by auto
  have r: "r \<noteq> RuneError" using assms(1,4) by auto
  have b: "at_boundary ?d" using DecodeLast_RuneStart [OF assms(2,3) r, of "[]"] by simp
  have li: "lastIndexFunc p f False = ?li"
    using lastIndexFunc_step [OF assms(2,3)] assms(4) by simp
  have "sliceEnd (?p' @ ?d) ?li = sliceEnd ?p' ?li" "sliceEnd ?p' ?li \<le> length ?p'"
    using lastIndex_sliceEnd [where f = f and q = ?d and p = ?p', OF assms(1) b] by blast+
  then have "sliceEnd p ?li = sliceEnd ?p' ?li" "sliceEnd ?p' ?li \<le> length p - w"
    using w by simp_all
  then show ?thesis
    unfolding TrimRightFunc_def li by (simp add: min.absorb1)
qed

lemma TrimRightFunc_props:
  assumes "\<not> f RuneError"
  shows "(\<exists>q. p = TrimRightFunc p f @ q \<and> at_boundary q)
     \<and> (TrimRightFunc p f = [] \<or> \<not> f (fst (DecodeLastRuneInString (TrimRightFunc p f))))"
proof -
  let ?e = "sliceEnd p (lastIndexFunc p f False)"
  have "at_boundary (drop ?e p)" "?e = 0 \<or> \<not> f (fst (DecodeLastRuneInString (take ?e p)))"
    using lastIndex_sliceEnd [where f = f and q = "[]" and p = p, OF assms] by (simp_all add: at_boundary_def)
  moreover have "p = take ?e p @ drop ?e p" by simp
  ultimately show ?thesis unfolding TrimRightFunc_def by (metis take_eq_Nil2)
qed

lemma TrimLeftFunc_props:
  "TrimLeftFunc s f = [] \<or> \<not> f (fst (DecodeRuneInString (TrimLeftFunc s f)))"
proof (induction s f rule: TrimLeftFunc.induct)
  case (1 f)
  then show ?case by simp
next
  case (2 c s f)
  then show ?case
    by (cases "DecodeRuneInString (c # s)") (auto simp del: DecodeRuneInString.simps)
qed

lemma TrimLeftFunc_keep:
  "s \<noteq> [] \<Longrightarrow> \<not> f (fst (DecodeRuneInString s)) \<Longrightarrow> TrimLeftFunc s f = s"
  by (cases s; cases "DecodeRuneInString s") (auto simp del: DecodeRuneInString.simps)

lemma not_IsSpace_RuneError: "\<not> IsSpace RuneError"
  by (simp add: IsSpace_def RuneError_def)

lemma asciiSpace_IsSpace: "b < 0x80 \<Longrightarrow> asciiSpace b \<longleftrightarrow> IsSpace (int b)"
  by (auto simp: asciiSpace_def IsSpace_def)

lemma DecodeLast_ascii:
  "p \<noteq> [] \<Longrightarrow> byte (last p) < 0x80 \<Longrightarrow> DecodeLastRuneInString p = (int (byte (last p)), 1)"
  by (simp add: DecodeLastRuneInString_def Let_def RuneSelf_def last_conv_nth nat_diff_distrib')

lemma trimStop_TrimRightFunc: "trimStop s = TrimRightFunc s IsSpace"
proof (induction s rule: trimStop.induct)
  case (1 s)
  show ?case
  proof (cases "s = []")
    case True
    then show ?thesis by (simp add: trimStop.simps TrimRightFunc_Nil)
  next
    case ne: False
    show ?thesis
    proof (cases "byte (last s) \<ge> RuneSelf")
      case True
      then show ?thesis using ne by (simp add: trimStop.simps)
    next
      case False
      then have lt: "byte (last s) < 0x80" by (simp add: RuneSelf_def)
      note d = DecodeLast_ascii [OF ne lt]
      show ?thesis
      proof (cases "asciiSpace (byte (last s))")
        case True
        then have sp: "IsSpace (int (byte (last s)))" using asciiSpace_IsSpace [OF lt] by simp
        have "TrimRightFunc s IsSpace = TrimRightFunc (take (length s - 1) s) IsSpace"
          by (rule TrimRightFunc_step [where f = IsSpace, OF not_IsSpace_RuneError ne d sp])
        moreover have "trimStop s = trimStop (butlast s)"
          using ne False True by (subst trimStop.simps) simp
        ultimately show ?thesis
          using "1.IH" [OF ne _ True] False by (simp add: butlast_conv_take)
      next
        case nsp: False
        then have "\<not> IsSpace (fst (DecodeLastRuneInString s))"
          using asciiSpace_IsSpace [OF lt] d by simp
        then have "TrimRightFunc s IsSpace = s" by (rule TrimRightFunc_keep [OF ne])
        moreover have "trimStop s = s"
          using ne False nsp by (subst trimStop.simps) simp
        ultimately show ?thesis by simp
      qed
    qed
  qed
qed

lemma TrimSpace_TrimFunc: "TrimSpace s = TrimFunc s IsSpace"
proof (induction s)
  case Nil
  then show ?case by (simp add: trimStop.simps TrimFunc_def TrimRightFunc_Nil)
next
  case (Cons c s)
  show ?case
  proof (cases "byte c \<ge> RuneSelf")
    case True
    then show ?thesis by simp
  next
    case False
    then have lt: "byte c < 0x80" by (simp add: RuneSelf_def)
    note d = Decode_ascii [OF lt, of s]
    show ?thesis
    proof (cases "asciiSpace (byte c)")
      case True
      then have "IsSpace (int (byte c))" using asciiSpace_IsSpace [OF lt] by simp
      then have "TrimLeftFunc (c # s) IsSpace = TrimLeftFunc s IsSpace"
        using d by (simp del: DecodeRuneInString.simps)
      then show ?thesis using Cons False True by (simp add: TrimFunc_def)
    next
      case nsp: False
      then have "\<not> IsSpace (int (byte c))" using asciiSpace_IsSpace [OF lt] by simp
      then have "TrimLeftFunc (c # s) IsSpace = c # s"
        using d by (simp del: DecodeRuneInString.simps)
      then show ?thesis
        using False nsp by (simp add: TrimFunc_def trimStop_TrimRightFunc)
    qed
  qed
qed

lemma at_boundary_newline: "at_boundary [CHR 0x0A]"
  by (simp add: at_boundary_def RuneStart_iff)

lemma IsSpace_newline: "IsSpace 0x0A"
  by (simp add: IsSpace_def)

lemma TrimFunc_trimmed:
  assumes "\<not> f RuneError" "TrimFunc s f \<noteq> []"
  shows "\<not> f (fst (DecodeRuneInString (TrimFunc s f)))"
    and "\<not> f (fst (DecodeLastRuneInString (TrimFunc s f)))"
proof -
  let ?u = "TrimLeftFunc s f"
  let ?t = "TrimRightFunc ?u f"
  have t: "?t \<noteq> []" using assms(2) by (simp add: TrimFunc_def)
  obtain q where q: "?u = ?t @ q" "at_boundary q"
    using TrimRightFunc_props [where f = f and p = ?u, OF assms(1)] by blast
  have "?u \<noteq> []" using q t by auto
  then have "\<not> f (fst (DecodeRuneInString ?u))" using TrimLeftFunc_props [of s f] by simp
  moreover have "DecodeRuneInString ?u = DecodeRuneInString ?t"
    using Decode_append [OF t q(2)] q(1) by simp
  ultimately show "\<not> f (fst (DecodeRuneInString (TrimFunc s f)))"
    by (simp add: TrimFunc_def)
  show "\<not> f (fst (DecodeLastRuneInString (TrimFunc s f)))"
    using TrimRightFunc_props [where f = f and p = ?u, OF assms(1)] t by (simp add: TrimFunc_def)
qed

lemma TrimSpace_newline: "TrimSpace (TrimSpace s @ [CHR 0x0A]) = TrimSpace s"
proof (cases "TrimSpace s = []")
  case True
  then show ?thesis by (simp add: asciiSpace_def RuneSelf_def trimStop.simps)
next
  case False
  let ?t = "TrimFunc s IsSpace"
  have t: "?t \<noteq> []" using False by (simp add: TrimSpace_TrimFunc)
  note tr = TrimFunc_trimmed [where f = IsSpace, OF not_IsSpace_RuneError t]
  have "DecodeRuneInString (?t @ [CHR 0x0A]) = DecodeRuneInString ?t"
    by (rule Decode_append [OF t at_boundary_newline])
  then have l: "TrimLeftFunc (?t @ [CHR 0x0A]) IsSpace = ?t @ [CHR 0x0A]"
    using tr(1) by (simp add: TrimLeftFunc_keep)
  have d: "DecodeLastRuneInString (?t @ [CHR 0x0A]) = (0x0A, 1)"
    using DecodeLast_ascii [of "?t @ [CHR 0x0A]"] by simp
  have "TrimRightFunc (?t @ [CHR 0x0A]) IsSpace = TrimRightFunc ?t IsSpace"
    using TrimRightFunc_step [where f = IsSpace, OF not_IsSpace_RuneError _ d IsSpace_newline]
    by simp
  also have "\<dots> = ?t" by (rule TrimRightFunc_keep [where f = IsSpace, OF t tr(2)])
  finally show ?thesis using l by (simp add: TrimSpace_TrimFunc TrimFunc_def)
qed

lemma TrimLeftFunc_all:
  "list_all f (runes s) \<Longrightarrow> TrimLeftFunc s f = []"
proof (induction s f rule: TrimLeftFunc.induct)
  case (1 f)
  then show ?case by simp
next
  case (2 c s f)
  then show ?case
    by (cases "DecodeRuneInString (c # s)") (auto simp del: DecodeRuneInString.simps)
qed

lemma TrimSpace_all: "list_all IsSpace (runes s) \<Longrightarrow> TrimSpace s = []"
  by (simp add: TrimSpace_TrimFunc TrimFunc_def TrimLeftFunc_all TrimRightFunc_Nil)

section \<open>Properties of the string sanitisation functions\<close>

lemma HasPrefix_iff: "HasPrefix s pre \<longleftrightarrow> prefix pre s"
  by (auto simp: HasPrefix_def prefix_def) (metis append_take_drop_id)

lemma HasSuffix_iff: "HasSuffix s suf \<longleftrightarrow> suffix suf s"
  by (auto simp: HasSuffix_def suffix_def) (metis append_take_drop_id)

text \<open>
  Claim C8. \<open>IsPrivate(name)\<close> is true if and only if \<open>name\<close> both starts with and
  ends with two underscores, also where the two overlap or touch: the names of two,
  three and four underscores are private. \<open>IsPrivate("__test__")\<close> is true, and
  \<open>"__test"\<close>, \<open>"test__"\<close> and \<open>"test"\<close> are not private.
\<close>

theorem IsPrivate_iff:
  "(IsPrivate name \<longleftrightarrow> prefix ''__'' name \<and> suffix ''__'' name)
   \<and> IsPrivate ''____'' \<and> IsPrivate ''___'' \<and> IsPrivate ''__''
   \<and> IsPrivate ''__test__''
   \<and> \<not> IsPrivate ''__test'' \<and> \<not> IsPrivate ''test__'' \<and> \<not> IsPrivate ''test''"
  by (simp add: IsPrivate_def HasPrefix_iff HasSuffix_iff) (simp add: suffix_def)

lemma ToLower_Nil: "strings_ToLower tbl [] = []"
  by (simp add: strings_ToLower_def)

lemma ToLower_literals:
  "strings_ToLower latin1_table ''0000'' = ''0000''"
  "strings_ToLower latin1_table ''Alpha'' = ''alpha''"
  "strings_ToLower latin1_table ''BRAVO'' = ''bravo''"
  by code_simp+

lemma PairKey_literals:
  "PairKey latin1_table ''0000'' ''alpha'' = ''0000:alpha''"
  "PairKey latin1_table ''0000'' ''nope'' = ''0000:nope''"
  "PairKey latin1_table ''0000'' ''ALPHA'' = ''0000:alpha''"
  by code_simp+

lemma PairValue_literals:
  "PairValue ''  Alpha.  '' = ''Alpha.'' @ [CHR 0x0A]"
  "PairValue ''v'' = ''v'' @ [CHR 0x0A]"
  by code_simp+

lemma unicode_ToLower_idem:
  assumes "lower_table tbl" "ValidRune r"
  shows "ValidRune (unicode_ToLower tbl r)
     \<and> unicode_ToLower tbl (unicode_ToLower tbl r) = unicode_ToLower tbl r"
proof (cases "r \<le> 0x7F")
  case True
  then show ?thesis
    using assms(2) by (auto simp: unicode_ToLower_def ValidRune_def MaxRune_def)
next
  case False
  then have "ValidRune (tbl r) \<and> unicode_ToLower tbl (tbl r) = tbl r"
    using assms by (simp add: lower_table_def)
  moreover have "unicode_ToLower tbl r = tbl r"
    using False by (simp add: unicode_ToLower_def)
  ultimately show ?thesis by simp
qed

lemma ToLower_idem:
  assumes "lower_table tbl"
  shows "strings_ToLower tbl (strings_ToLower tbl s) = strings_ToLower tbl s"
  using Map_Map [of "unicode_ToLower tbl" s "[]"] unicode_ToLower_idem [OF assms]
  by (simp add: ToLower_Map)

text \<open>
  Claim C6. Key derivation is case-insensitive: for all strings \<open>user\<close> and \<open>name\<close>,
  \<open>PairKey(user, name)\<close> is \<open>PairKey(lower(user), lower(name))\<close>, and it is the bytes of
  \<open>lower(user) + ":" + lower(name)\<close>. The lower-case table of the Unicode database is
  any table whose lower-case forms are runes and their own lower-case forms.
\<close>

theorem PairKey_case_insensitive:
  assumes "lower_table tbl"
  shows "PairKey tbl user name = PairKey tbl (strings_ToLower tbl user) (strings_ToLower tbl name)
     \<and> PairKey tbl user name = strings_ToLower tbl user @ '':'' @ strings_ToLower tbl name"
  by (simp add: PairKey_def ToLower_idem [OF assms])

lemma lower_table_latin1: "lower_table latin1_table"
  by (auto simp: lower_table_def latin1_table_def unicode_ToLower_def ValidRune_def MaxRune_def)

lemma ToLower_latin1_literals:
  "strings_ToLower latin1_table [CHR 0xC3, CHR 0x89, CHR ''T'', CHR 0xE2, CHR 0x84, CHR 0xAA]
     = [CHR 0xC3, CHR 0xA9, CHR ''t'', CHR ''k'']"
  "strings_ToLower latin1_table [CHR 0xC3, CHR 0xA9, CHR ''t'', CHR ''k'']
     = [CHR 0xC3, CHR 0xA9, CHR ''t'', CHR ''k'']"
  "strings_ToLower latin1_table ''NaMe'' = ''name''"
  "strings_ToLower latin1_table ''name'' = ''name''"
  by code_simp+

theorem PairKey_case_insensitive_witness:
  "lower_table latin1_table
   \<and> PairKey latin1_table [CHR 0xC3, CHR 0x89, CHR ''T'', CHR 0xE2, CHR 0x84, CHR 0xAA] ''NaMe''
       = PairKey latin1_table [CHR 0xC3, CHR 0xA9, CHR ''t'', CHR ''k''] ''name''
   \<and> PairKey latin1_table [CHR 0xC3, CHR 0x89, CHR ''T'', CHR 0xE2, CHR 0x84, CHR 0xAA] ''NaMe''
       = [CHR 0xC3, CHR 0xA9, CHR ''t'', CHR ''k''] @ '':name''"
  using PairKey_case_insensitive [OF lower_table_latin1,
      of "[CHR 0xC3, CHR 0x89, CHR ''T'', CHR 0xE2, CHR 0x84, CHR 0xAA]" "''NaMe''"]
    lower_table_latin1
  by (simp add: ToLower_latin1_literals PairKey_def)

lemma sep_unique_left:
  "c \<notin> set u \<Longrightarrow> c \<notin> set u' \<Longrightarrow> u @ c # n = u' @ c # n' \<Longrightarrow> u = u' \<and> n = n'"
proof (induction u arbitrary: u')
  case Nil
  then show ?case by (cases u') auto
next
  case (Cons a u)
  then show ?case by (cases u') auto
qed

lemma sep_unique_right:
  assumes "c \<notin> set n" "c \<notin> set n'" "u @ c # n = u' @ c # n'"
  shows "u = u' \<and> n = n'"
proof -
  have "rev n @ c # rev u = rev n' @ c # rev u'"
    using arg_cong [OF assms(3), of rev] by simp
  then have "rev n = rev n' \<and> rev u = rev u'"
    using assms(1,2) sep_unique_left [of c "rev n" "rev n'" "rev u" "rev u'"] by simp
  then show ?thesis by simp
qed

text \<open>
  Claim C1, as stated: two pairs with different case-folded identities have different
  keys. It fails where the separator occurs in an identifier: the users \<open>"a:b"\<close> and
  \<open>"a"\<close> with the names \<open>"c"\<close> and \<open>"b:c"\<close> are different identities with the one key
  \<open>"a:b:c"\<close>.
\<close>

theorem PairKey_collision:
  "(strings_ToLower latin1_table ''a:b'', strings_ToLower latin1_table ''c'')
     \<noteq> (strings_ToLower latin1_table ''a'', strings_ToLower latin1_table ''b:c'')
   \<and> PairKey latin1_table ''a:b'' ''c'' = PairKey latin1_table ''a'' ''b:c''"
  by (simp add: PairKey_def strings_ToLower_def RuneSelf_def)

text \<open>
  Claim C1, amended. Two pairs with different case-folded identities have different
  keys provided the separator \<open>:\<close> occurs in neither case-folded user, or in neither
  case-folded name.
\<close>

theorem PairKey_injective:
  assumes "(strings_ToLower tbl user, strings_ToLower tbl name)
             \<noteq> (strings_ToLower tbl user', strings_ToLower tbl name')"
    and "(CHR '':'' \<notin> set (strings_ToLower tbl user) \<and> CHR '':'' \<notin> set (strings_ToLower tbl user'))
         \<or> (CHR '':'' \<notin> set (strings_ToLower tbl name) \<and> CHR '':'' \<notin> set (strings_ToLower tbl name'))"
  shows "PairKey tbl user name \<noteq> PairKey tbl user' name'"
proof
  assume "PairKey tbl user name = PairKey tbl user' name'"
  then have eq: "strings_ToLower tbl user @ CHR '':'' # strings_ToLower tbl name
               = strings_ToLower tbl user' @ CHR '':'' # strings_ToLower tbl name'"
    by (simp add: PairKey_def)
  from assms(2) have "strings_ToLower tbl user = strings_ToLower tbl user'
      \<and> strings_ToLower tbl name = strings_ToLower tbl name'"
    using sep_unique_left [OF _ _ eq] sep_unique_right [OF _ _ eq] by blast
  with assms(1) show False by simp
qed

theorem PairKey_injective_witness:
  "(strings_ToLower latin1_table ''0000'', strings_ToLower latin1_table ''Alpha'')
     \<noteq> (strings_ToLower latin1_table ''0000'', strings_ToLower latin1_table ''BRAVO'')
   \<and> CHR '':'' \<notin> set (strings_ToLower latin1_table ''0000'')
   \<and> PairKey latin1_table ''0000'' ''Alpha'' \<noteq> PairKey latin1_table ''0000'' ''BRAVO''"
  using PairKey_injective [of latin1_table "''0000''" "''Alpha''" "''0000''" "''BRAVO''"]
  by (simp add: ToLower_literals)

lemma PairValue_normalized: "normalized (PairValue v)"
proof (cases "TrimSpace v = []")
  case True
  then show ?thesis by (simp add: normalized_def PairValue_def)
next
  case False
  then have t: "TrimFunc v IsSpace \<noteq> []" by (simp add: TrimSpace_TrimFunc)
  note tr = TrimFunc_trimmed [where f = IsSpace, OF not_IsSpace_RuneError t]
  have "last (TrimFunc v IsSpace) \<noteq> CHR 0x0A"
  proof
    assume "last (TrimFunc v IsSpace) = CHR 0x0A"
    then have "DecodeLastRuneInString (TrimFunc v IsSpace) = (0x0A, 1)"
      using DecodeLast_ascii [OF t] by simp
    then show False using tr(2) IsSpace_newline by simp
  qed
  then show ?thesis
    using tr False by (simp add: normalized_def PairValue_def TrimSpace_TrimFunc)
qed

text \<open>
  Claim C7. For every input \<open>v\<close>, \<open>PairValue(v)\<close> ends in exactly one newline and has no
  other leading or trailing white space; normalizing the string of its own output
  returns the same bytes; and a text whose runes are all white space, the empty text
  among them, is normalized to the single byte \<open>"\n"\<close>.
\<close>

theorem PairValue_idempotent:
  "normalized (PairValue v)
   \<and> PairValue (PairValue v) = PairValue v
   \<and> (list_all IsSpace (runes v) \<longrightarrow> PairValue v = [CHR 0x0A])"
proof -
  have "PairValue (PairValue v) = PairValue v"
    by (simp add: PairValue_def TrimSpace_newline)
  moreover have "list_all IsSpace (runes v) \<longrightarrow> PairValue v = [CHR 0x0A]"
    by (simp add: PairValue_def TrimSpace_all)
  ultimately show ?thesis
    using PairValue_normalized [of v] by blast
qed

theorem PairValue_idempotent_witness:
  "normalized (''Value.'' @ [CHR 0x0A])
   \<and> PairValue (PairValue (CHR 0x09 # ''Value.'' @ [CHR 0x0A])) = ''Value.'' @ [CHR 0x0A]
   \<and> list_all IsSpace (runes [CHR 0x20, CHR 0xC2, CHR 0xA0, CHR 0x09])
   \<and> PairValue [CHR 0x20, CHR 0xC2, CHR 0xA0, CHR 0x09] = [CHR 0x0A]"
proof -
  have v: "PairValue (CHR 0x09 # ''Value.'' @ [CHR 0x0A]) = ''Value.'' @ [CHR 0x0A]"
    by code_simp
  have w: "list_all IsSpace (runes [CHR 0x20, CHR 0xC2, CHR 0xA0, CHR 0x09])"
    by code_simp
  show ?thesis
    using PairValue_idempotent [of "CHR 0x09 # ''Value.'' @ [CHR 0x0A]"]
      PairValue_idempotent [of "[CHR 0x20, CHR 0xC2, CHR 0xA0, CHR 0x09]"] w
    unfolding v by simp
qed

section \<open>Properties of the database handling functions\<close>

lemma GetPair_result:
  "fst (GetPair tbl db user name) =
     (if \<not> opened db then ([], False, Some ErrDatabaseNotOpen)
      else case buckets db ''main'' of
        None \<Rightarrow> ([], False, None)
      | Some b \<Rightarrow> (case b (PairKey tbl user name) of
                    None \<Rightarrow> ([], False, None)
                  | Some v \<Rightarrow> (v, True, None)))"
  by (simp add: GetPair_def View_def Tx_Bucket_def Bucket_Get_def Let_def split: option.splits)

lemma PairKey_length: "0 < length (PairKey tbl user name)"
  by (simp add: PairKey_def)

lemma SetPair_result:
  "SetPair tbl db user name pval =
     (if readOnly db then (Some ErrDatabaseReadOnly, db)
      else if \<not> opened db then (Some ErrDatabaseNotOpen, db)
      else if length (PairKey tbl user name) > MaxKeySize then (Some ErrKeyTooLarge, db)
      else if length (PairValue pval) > MaxValueSize then (Some ErrValueTooLarge, db)
      else (None, db\<lparr>buckets := (buckets db)(''main'' \<mapsto>
              (case buckets db ''main'' of None \<Rightarrow> Map.empty | Some b \<Rightarrow> b)
                (PairKey tbl user name \<mapsto> PairValue pval))\<rparr>))"
  using PairKey_length [of tbl user name]
  by (auto simp: SetPair_def Update_def CreateBucketIfNotExists_def Bucket_Put_def
      split: option.splits)

lemma DeletePair_result:
  "DeletePair tbl db user name =
     (if readOnly db then (Some ErrDatabaseReadOnly, db)
      else if \<not> opened db then (Some ErrDatabaseNotOpen, db)
      else case buckets db ''main'' of
        None \<Rightarrow> (None, db)
      | Some b \<Rightarrow> (None, db\<lparr>buckets := (buckets db)(''main'' \<mapsto> b(PairKey tbl user name := None))\<rparr>))"
  by (auto simp: DeletePair_def Update_def Tx_Bucket_def Bucket_Delete_def split: option.splits)

text \<open>
  Claim C9. \<open>GetPair\<close> never changes the database: the buckets, their contents and the
  state of the handle after the call are those before it.
\<close>

theorem GetPair_frame: "snd (GetPair tbl db user name) = db"
  by (auto simp: GetPair_def View_def Let_def split: prod.splits if_splits)

text \<open>
  Claim C3. Absence of a pair is not an error. On an open database \<open>GetPair\<close> returns
  \<open>("", false, nil)\<close> when there is no bucket \<open>main\<close> and when the bucket has no value
  under the derived key; and after a \<open>DeletePair\<close> that returned \<open>nil\<close>, \<open>GetPair\<close> for
  the same user and name returns \<open>("", false, nil)\<close>.
\<close>

theorem GetPair_absent:
  "(opened db \<and> (case buckets db ''main'' of None \<Rightarrow> True
                  | Some b \<Rightarrow> b (PairKey tbl user name) = None)
      \<longrightarrow> fst (GetPair tbl db user name) = ([], False, None))
   \<and> (fst (DeletePair tbl db user name) = None
      \<longrightarrow> fst (GetPair tbl (snd (DeletePair tbl db user name)) user name) = ([], False, None))"
  by (auto simp: DeletePair_result GetPair_result split: if_splits option.splits)

theorem GetPair_absent_witness:
  "opened empty_store \<and> buckets empty_store ''main'' = None
   \<and> fst (GetPair latin1_table empty_store ''0000'' ''alpha'') = ([], False, None)
   \<and> opened mockDB
   \<and> fst (GetPair latin1_table mockDB ''0000'' ''nope'') = ([], False, None)
   \<and> fst (DeletePair latin1_table mockDB ''0000'' ''alpha'') = None
   \<and> fst (GetPair latin1_table (snd (DeletePair latin1_table mockDB ''0000'' ''alpha''))
        ''0000'' ''alpha'') = ([], False, None)"
  using GetPair_absent [of empty_store latin1_table "''0000''" "''alpha''"]
    GetPair_absent [of mockDB latin1_table "''0000''" "''nope''"]
    GetPair_absent [of mockDB latin1_table "''0000''" "''alpha''"]
  by (simp add: empty_store_def mockDB_def PairKey_literals DeletePair_result)

text \<open>
  Claim C2. If \<open>SetPair(db, user, name, value)\<close> returns \<open>nil\<close>, then \<open>GetPair\<close> for the
  same user and name on the resulting database returns the string of
  \<open>PairValue(value)\<close>, \<open>true\<close> and \<open>nil\<close>. The value is trimmed and not case-folded:
  the value \<open>"  Alpha.  "\<close> comes back as \<open>"Alpha.\n"\<close>.
\<close>

theorem SetPair_GetPair:
  "fst (SetPair tbl db user name val) = None \<Longrightarrow>
   fst (GetPair tbl (snd (SetPair tbl db user name val)) user name) = (PairValue val, True, None)"
  by (simp add: SetPair_result GetPair_result split: if_splits)

theorem SetPair_GetPair_witness:
  "fst (SetPair latin1_table empty_store ''0000'' ''alpha'' ''  Alpha.  '') = None
   \<and> stored (snd (SetPair latin1_table empty_store ''0000'' ''alpha'' ''  Alpha.  ''))
        ''0000:alpha'' (''Alpha.'' @ [CHR 0x0A])
   \<and> fst (GetPair latin1_table (snd (SetPair latin1_table empty_store ''0000'' ''alpha'' ''  Alpha.  ''))
        ''0000'' ''alpha'') = (''Alpha.'' @ [CHR 0x0A], True, None)
   \<and> fst (SetPair latin1_table mockDB ''0000'' ''ALPHA'' ''  Alpha.  '') = None
   \<and> fst (GetPair latin1_table (snd (SetPair latin1_table mockDB ''0000'' ''ALPHA'' ''  Alpha.  ''))
        ''0000'' ''ALPHA'') = (''Alpha.'' @ [CHR 0x0A], True, None)"
proof -
  have ok: "fst (SetPair latin1_table empty_store ''0000'' ''alpha'' ''  Alpha.  '') = None"
      "fst (SetPair latin1_table mockDB ''0000'' ''ALPHA'' ''  Alpha.  '') = None"
    by (simp_all add: SetPair_result empty_store_def mockDB_def PairKey_literals
        PairValue_literals MaxKeySize_def MaxValueSize_def)
  have st: "stored (snd (SetPair latin1_table empty_store ''0000'' ''alpha'' ''  Alpha.  ''))
        ''0000:alpha'' (''Alpha.'' @ [CHR 0x0A])"
    by (simp add: stored_def SetPair_result empty_store_def PairKey_literals
        PairValue_literals MaxKeySize_def MaxValueSize_def)
  from SetPair_GetPair [OF ok(1)] SetPair_GetPair [OF ok(2)] ok st show ?thesis
    by (simp add: PairValue_literals)
qed

text \<open>
  Claim C10. The pair store does not validate the identifiers. The key of the empty
  user and the empty name is the one byte \<open>":"\<close>; on an open, writable database
  \<open>SetPair(db, "", "", v)\<close> returns \<open>nil\<close> for every value that the store can hold, the
  bucket \<open>main\<close> then holds \<open>PairValue(v)\<close> under \<open>":"\<close>, and \<open>GetPair(db, "", "")\<close>
  returns that value, \<open>true\<close> and \<open>nil\<close>.
\<close>

theorem SetPair_empty_identifiers:
  "PairKey tbl [] [] = '':''
   \<and> (opened db \<and> \<not> readOnly db \<and> length (PairValue v) \<le> MaxValueSize \<longrightarrow>
        fst (SetPair tbl db [] [] v) = None
        \<and> (case buckets (snd (SetPair tbl db [] [] v)) ''main'' of
             None \<Rightarrow> None | Some b \<Rightarrow> b '':'') = Some (PairValue v)
        \<and> fst (GetPair tbl (snd (SetPair tbl db [] [] v)) [] []) = (PairValue v, True, None))"
proof -
  have k: "PairKey tbl [] [] = '':''"
    by (simp add: PairKey_def ToLower_Nil)
  show ?thesis
    by (simp add: k SetPair_result GetPair_result MaxKeySize_def)
qed

theorem SetPair_empty_identifiers_witness:
  "opened empty_store \<and> \<not> readOnly empty_store
   \<and> length (PairValue ''v'') \<le> MaxValueSize
   \<and> fst (SetPair latin1_table empty_store [] [] ''v'') = None
   \<and> fst (GetPair latin1_table (snd (SetPair latin1_table empty_store [] [] ''v'')) [] [])
       = (''v'' @ [CHR 0x0A], True, None)"
  using SetPair_empty_identifiers [of latin1_table empty_store "''v''"]
  by (simp add: empty_store_def PairValue_literals MaxValueSize_def)

lemma SetPair_stored:
  "stored (snd (SetPair tbl db user name pval)) key val \<Longrightarrow>
     val = PairValue pval \<or> stored db key val"
  by (simp add: stored_def SetPair_result split: if_splits option.splits)

lemma DeletePair_stored:
  "stored (snd (DeletePair tbl db user name)) key val \<Longrightarrow> stored db key val"
  by (auto simp: stored_def DeletePair_result split: if_splits option.splits)

lemma run_stored:
  "stored (run tbl db ops) key val \<Longrightarrow> stored db key val \<or> normalized val"
  unfolding run_def
proof (induction ops arbitrary: db)
  case Nil
  then show ?case by simp
next
  case (Cons op ops)
  then have "stored (apply_operation tbl db op) key val \<or> normalized val" by simp
  then show ?case
  proof (cases op)
    case (Set user name pval)
    then show ?thesis
      using \<open>stored (apply_operation tbl db op) key val \<or> normalized val\<close>
        SetPair_stored [of tbl db user name pval key val] PairValue_normalized [of pval]
      by auto
  next
    case (Delete user name)
    then show ?thesis
      using \<open>stored (apply_operation tbl db op) key val \<or> normalized val\<close>
        DeletePair_stored [of tbl db user name key val]
      by auto
  qed
qed

text \<open>
  Claim C4. In every database reached from the empty store by a sequence of \<open>SetPair\<close>
  and \<open>DeletePair\<close> calls, every value stored in the bucket \<open>main\<close> ends in exactly one
  newline and has no other leading or trailing white space.
\<close>

theorem stored_values_normalized:
  "stored (run tbl empty_store ops) key val \<Longrightarrow> normalized val"
  using run_stored [of tbl empty_store ops key val] by (simp add: stored_def empty_store_def)


theorem stored_values_normalized_witness:
  "stored (run latin1_table empty_store
        [Set ''0000'' ''alpha'' ''  Alpha.  '', Delete ''0000'' ''nope'',
         Set ''0000'' ''nope'' ''v'', Delete ''0000'' ''nope''])
      ''0000:alpha'' (''Alpha.'' @ [CHR 0x0A])
   \<and> normalized (''Alpha.'' @ [CHR 0x0A])"
proof -
  have s: "stored (run latin1_table empty_store
        [Set ''0000'' ''alpha'' ''  Alpha.  '', Delete ''0000'' ''nope'',
         Set ''0000'' ''nope'' ''v'', Delete ''0000'' ''nope''])
      ''0000:alpha'' (''Alpha.'' @ [CHR 0x0A])"
    by (simp add: stored_def run_def SetPair_result DeletePair_result empty_store_def
        PairKey_literals PairValue_literals MaxKeySize_def MaxValueSize_def)
  from stored_values_normalized [OF s] s show ?thesis by simp
qed

section \<open>Properties of the HTTP response functions\<close>

subsection \<open>A newline after the format\<close>

text \<open>
  With the bytes \<open>x\<close> already written and a newline appended to the format, every step of
  a directive does what it does without them, writes after \<open>x\<close> and leaves the newline
  in the format, as long as the format is not over where the step stops and no argument
  index is read from the two bytes \<open>[]\<close>.
\<close>

lemma flags_newline:
  "flags f (s @ [CHR 0x0A]) = (fst (flags f s), snd (flags f s) @ [CHR 0x0A])"
  by (induction f s rule: flags.induct) auto

lemma flags_suffix: "suffix (snd (flags f s)) s"
  by (induction f s rule: flags.induct) (auto simp: suffix_Cons)

lemma parsenum_loop_newline:
  "snd (snd (parsenum_loop s num isnum k)) < k + length s \<Longrightarrow>
   parsenum_loop (s @ [CHR 0x0A]) num isnum k = parsenum_loop s num isnum k"
  by (induction s num isnum k rule: parsenum_loop.induct) (auto split: if_splits)

lemma parsenum_newline:
  "snd (snd (parsenum s)) < length s \<Longrightarrow> parsenum (s @ [CHR 0x0A]) = parsenum s"
  using parsenum_loop_newline [of s 0 False 0] by (auto simp: parsenum_def)

lemma parseArgNumber_width:
  "s \<noteq> [] \<Longrightarrow> parseArgNumber s = (i, w, ok) \<Longrightarrow> 1 \<le> w \<and> w \<le> length s"
  using length_takeWhile_le [of "\<lambda>c. c \<noteq> CHR '']''" "tl s"]
  by (cases s) (auto simp: parseArgNumber_def Let_def split: if_splits prod.splits)

lemma parseArgNumber_newline:
  assumes "s \<noteq> []" "tl s \<noteq> '']''"
  shows "parseArgNumber (s @ [CHR 0x0A]) = parseArgNumber s"
proof (cases "length s < 3")
  case True
  then consider c where "s = [c]" | c d where "s = [c, d]"
    using assms(1) by (cases s; cases "tl s"; cases "tl (tl s)") auto
  then show ?thesis
  proof cases
    case 1
    then show ?thesis by (simp add: parseArgNumber_def)
  next
    case 2
    then have "d \<noteq> CHR '']''" using assms(2) by simp
    then show ?thesis using 2 by (simp add: parseArgNumber_def)
  qed
next
  case False
  have tl: "tl (s @ [CHR 0x0A]) = tl s @ [CHR 0x0A]" using assms(1) by simp
  have len: "\<not> length (s @ [CHR 0x0A]) < 3" using False by simp
  have ls: "length s = 1 + length (tl s)" using assms(1) by (cases s) auto
  have len1: "length (s @ [CHR 0x0A]) = length s + 1" by simp
  show ?thesis
  proof (cases "CHR '']'' \<in> set (tl s)")
    case True
    then have tw: "takeWhile (\<lambda>c. c \<noteq> CHR '']'') (tl s @ [CHR 0x0A])
        = takeWhile (\<lambda>c. c \<noteq> CHR '']'') (tl s)"
      by (intro takeWhile_append1 [of "CHR '']''"]) auto
    have "0 < length (dropWhile (\<lambda>c. c \<noteq> CHR '']'') (tl s))"
      using True by (auto simp: dropWhile_eq_Nil_conv)
    moreover have "length (takeWhile (\<lambda>c. c \<noteq> CHR '']'') (tl s))
        + length (dropWhile (\<lambda>c. c \<noteq> CHR '']'') (tl s)) = length (tl s)"
      using arg_cong [OF takeWhile_dropWhile_id [of "\<lambda>c. c \<noteq> CHR '']''" "tl s"], of length]
      by (simp del: takeWhile_dropWhile_id)
    ultimately have lt: "length (takeWhile (\<lambda>c. c \<noteq> CHR '']'') (tl s)) < length (tl s)"
      by linarith
    have ne: "1 + length (takeWhile (\<lambda>c. c \<noteq> CHR '']'') (tl s)) \<noteq> length s"
      "1 + length (takeWhile (\<lambda>c. c \<noteq> CHR '']'') (tl s)) \<noteq> length (s @ [CHR 0x0A])"
      using lt ls len1 by linarith+
    show ?thesis
      unfolding parseArgNumber_def Let_def tl tw
      using False len ne by simp
  next
    case no: False
    then have tw: "takeWhile (\<lambda>c. c \<noteq> CHR '']'') (tl s @ [CHR 0x0A]) = tl s @ [CHR 0x0A]"
      "takeWhile (\<lambda>c. c \<noteq> CHR '']'') (tl s) = tl s"
      by (auto simp: takeWhile_eq_all_conv)
    have eq: "1 + length (tl s @ [CHR 0x0A]) = length (s @ [CHR 0x0A])"
      "1 + length (tl s) = length s"
      using ls len1 by (simp_all del: length_tl)
    show ?thesis
      unfolding parseArgNumber_def Let_def tl tw
      using False len eq by simp
  qed
qed

lemma argNumber_lift:
  assumes "format p \<noteq> ''[]''"
  shows "argNumber n (p\<lparr>buf := x @ buf p, format := format p @ [CHR 0x0A]\<rparr>)
     = (argNumber n p)\<lparr>buf := x @ buf (argNumber n p),
          format := format (argNumber n p) @ [CHR 0x0A]\<rparr>"
proof (cases "format p = [] \<or> hd (format p) \<noteq> CHR ''[''")
  case True
  then show ?thesis by (cases "format p") (auto simp: argNumber_def)
next
  case False
  then obtain t where t: "format p = CHR ''['' # t" by (cases "format p") auto
  then have "t \<noteq> '']''" using assms by simp
  then have pa: "parseArgNumber (format p @ [CHR 0x0A]) = parseArgNumber (format p)"
    using parseArgNumber_newline [of "format p"] t by simp
  obtain i w ok where iw: "parseArgNumber (format p) = (i, w, ok)"
    by (cases "parseArgNumber (format p)") auto
  then have "w \<le> length (format p)" using parseArgNumber_width [of "format p" i w ok] t by simp
  then have dr: "w - length (format p) = 0" by simp
  have hd: "hd (format p @ [CHR 0x0A]) = CHR ''[''" "hd (format p) = CHR ''[''" "format p \<noteq> []"
    using t by simp_all
  show ?thesis by (simp add: argNumber_def pa iw dr hd)
qed

lemma parsenum_le: "snd (snd (parsenum s)) \<le> length s"
proof -
  have "snd (snd (parsenum_loop s num isnum k)) \<le> k + length s" for num isnum k
    by (induction s num isnum k rule: parsenum_loop.induct) auto
  from this [of 0 False 0] show ?thesis by (simp add: parsenum_def)
qed

lemma doWidth_lift:
  assumes "format (doWidth P a p) \<noteq> []"
  shows "doWidth P a (p\<lparr>buf := x @ buf p, format := format p @ [CHR 0x0A]\<rparr>)
     = (doWidth P a p)\<lparr>buf := x @ buf (doWidth P a p),
          format := format (doWidth P a p) @ [CHR 0x0A]\<rparr>"
proof (cases "format p \<noteq> [] \<and> hd (format p) = CHR ''*''")
  case True
  then have "hd (format p @ [CHR 0x0A]) = CHR ''*''" "tl (format p @ [CHR 0x0A]) = tl (format p) @ [CHR 0x0A]"
    by simp_all
  then show ?thesis using True by (simp add: doWidth_def split: prod.splits)
next
  case False
  obtain num isnum newi where pn: "parsenum (format p) = (num, isnum, newi)"
    by (cases "parsenum (format p)") auto
  have ne: "drop newi (format p) \<noteq> []"
    using assms False pn by (auto simp: doWidth_def)
  then have lt: "newi < length (format p)" by simp
  then have pn': "parsenum (format p @ [CHR 0x0A]) = (num, isnum, newi)"
    using parsenum_newline [of "format p"] pn by simp
  have hd: "hd (format p @ [CHR 0x0A]) \<noteq> CHR ''*''"
    using False lt by (cases "format p") auto
  show ?thesis using lt by (simp add: doWidth_def False hd pn pn')
qed

lemma precisionValue_lift:
  assumes "format (precisionValue P a p) \<noteq> []"
  shows "precisionValue P a (p\<lparr>buf := x @ buf p, format := format p @ [CHR 0x0A]\<rparr>)
     = (precisionValue P a p)\<lparr>buf := x @ buf (precisionValue P a p),
          format := format (precisionValue P a p) @ [CHR 0x0A]\<rparr>"
proof (cases "format p \<noteq> [] \<and> hd (format p) = CHR ''*''")
  case True
  then have "hd (format p @ [CHR 0x0A]) = CHR ''*''" "tl (format p @ [CHR 0x0A]) = tl (format p) @ [CHR 0x0A]"
    by simp_all
  then show ?thesis using True by (simp add: precisionValue_def split: prod.splits)
next
  case False
  obtain num isnum newi where pn: "parsenum (format p) = (num, isnum, newi)"
    by (cases "parsenum (format p)") auto
  have ne: "drop newi (format p) \<noteq> []"
    using assms False pn by (auto simp: precisionValue_def)
  then have lt: "newi < length (format p)" by simp
  then have pn': "parsenum (format p @ [CHR 0x0A]) = (num, isnum, newi)"
    using parsenum_newline [of "format p"] pn by simp
  have hd: "hd (format p @ [CHR 0x0A]) \<noteq> CHR ''*''"
    using False lt by (cases "format p") auto
  show ?thesis using lt by (simp add: precisionValue_def False hd pn pn')
qed

lemma doPrecision_lift:
  assumes "format (doPrecision P a p) \<noteq> []" "format p \<noteq> ''.[]''"
  shows "doPrecision P a (p\<lparr>buf := x @ buf p, format := format p @ [CHR 0x0A]\<rparr>)
     = (doPrecision P a p)\<lparr>buf := x @ buf (doPrecision P a p),
          format := format (doPrecision P a p) @ [CHR 0x0A]\<rparr>"
proof (cases "format p \<noteq> [] \<and> hd (format p) = CHR ''.''")
  case False
  then have "format p \<noteq> []" using assms(1) by (auto simp: doPrecision_def)
  then have "hd (format p @ [CHR 0x0A]) \<noteq> CHR ''.''"
    using False by simp
  then show ?thesis by (simp add: doPrecision_def False)
next
  case True
  then obtain t where t: "format p = CHR ''.'' # t" by (cases "format p") auto
  define q where "q = p\<lparr>format := tl (format p),
      goodArgNum := (goodArgNum p \<and> \<not> afterIndex p)\<rparr>"
  define r where "r = argNumber (length a) q"
  have dp: "doPrecision P a p = precisionValue P a r"
    using True by (simp add: doPrecision_def q_def r_def)
  have "format q \<noteq> ''[]''" using assms(2) t by (simp add: q_def)
  then have r': "argNumber (length a) (q\<lparr>buf := x @ buf q, format := format q @ [CHR 0x0A]\<rparr>)
      = r\<lparr>buf := x @ buf r, format := format r @ [CHR 0x0A]\<rparr>"
    unfolding r_def by (rule argNumber_lift)
  have q': "(p\<lparr>buf := x @ buf p, format := format p @ [CHR 0x0A]\<rparr>)
        \<lparr>format := tl (format p @ [CHR 0x0A]),
         goodArgNum := (goodArgNum p \<and> \<not> afterIndex p)\<rparr>
      = q\<lparr>buf := x @ buf q, format := format q @ [CHR 0x0A]\<rparr>"
    using t by (simp add: q_def)
  have "doPrecision P a (p\<lparr>buf := x @ buf p, format := format p @ [CHR 0x0A]\<rparr>)
      = precisionValue P a (r\<lparr>buf := x @ buf r, format := format r @ [CHR 0x0A]\<rparr>)"
    using t r' q' by (simp add: doPrecision_def)
  also have "\<dots> = (precisionValue P a r)\<lparr>buf := x @ buf (precisionValue P a r),
          format := format (precisionValue P a r) @ [CHR 0x0A]\<rparr>"
    using assms(1) unfolding dp by (rule precisionValue_lift)
  finally show ?thesis unfolding dp .
qed

lemma readVerb_newline: "s \<noteq> [] \<Longrightarrow> readVerb (s @ [CHR 0x0A]) = readVerb s"
  using Decode_append [of s "[CHR 0x0A]"] at_boundary_newline
  by (simp add: readVerb_def del: DecodeRuneInString.simps)

lemma readVerb_width: "s \<noteq> [] \<Longrightarrow> 1 \<le> snd (readVerb s) \<and> snd (readVerb s) \<le> length s"
  using Decode_width [of s "fst (DecodeRuneInString s)" "snd (DecodeRuneInString s)"]
  by (cases s) (auto simp: readVerb_def simp del: DecodeRuneInString.simps)

lemma printVerb_lift:
  "printVerb P a verb (p\<lparr>buf := x @ buf p, format := s\<rparr>)
     = (printVerb P a verb p)\<lparr>buf := x @ buf (printVerb P a verb p), format := s\<rparr>"
  by (simp add: printVerb_def Let_def)

lemma doVerb_lift:
  assumes "format p \<noteq> []"
  shows "doVerb P a (p\<lparr>buf := x @ buf p, format := format p @ [CHR 0x0A]\<rparr>)
     = (doVerb P a p)\<lparr>buf := x @ buf (doVerb P a p),
          format := format (doVerb P a p) @ [CHR 0x0A]\<rparr>"
proof -
  obtain verb w where vw: "readVerb (format p) = (verb, w)" by (cases "readVerb (format p)") auto
  then have vw': "readVerb (format p @ [CHR 0x0A]) = (verb, w)"
    using readVerb_newline [OF assms] by simp
  have w: "w - length (format p) = 0" using readVerb_width [OF assms] vw by simp
  show ?thesis by (simp add: doVerb_def vw vw' w Let_def printVerb_def)
qed

subsection \<open>How far a directive reaches\<close>

lemma argNumber_scan:
  "(format (argNumber n p), afterIndex (argNumber n p)) = skipArgNumber (format p)"
  by (auto simp: argNumber_def skipArgNumber_def split: prod.splits)

lemma doWidth_scan:
  "(format (doWidth P a p), afterIndex (doWidth P a p)) = skipNumber (format p, afterIndex p)"
  by (auto simp: doWidth_def skipNumber_def split: prod.splits)

lemma precisionValue_scan:
  "(format (precisionValue P a p), afterIndex (precisionValue P a p))
     = skipNumber (format p, afterIndex p)"
  by (auto simp: precisionValue_def skipNumber_def split: prod.splits)

lemma doPrecision_scan:
  "(format (doPrecision P a p), afterIndex (doPrecision P a p))
     = (if format p \<noteq> [] \<and> hd (format p) = CHR ''.''
        then skipNumber (skipArgNumber (tl (format p))) else (format p, afterIndex p))"
  using precisionValue_scan [of P a "argNumber (length a)
      (p\<lparr>format := tl (format p), goodArgNum := (goodArgNum p \<and> \<not> afterIndex p)\<rparr>)"]
    argNumber_scan [of "length a"
      "p\<lparr>format := tl (format p), goodArgNum := (goodArgNum p \<and> \<not> afterIndex p)\<rparr>"]
  by (simp add: doPrecision_def)

lemma directiveArgs_scan: "format (directiveArgs P a p) = toVerb (format p)"
proof -
  define q1 where "q1 = argNumber (length a) p"
  define q2 where "q2 = doWidth P a q1"
  define q3 where "q3 = doPrecision P a q2"
  have 1: "skipArgNumber (format p) = (format q1, afterIndex q1)"
    unfolding q1_def by (simp add: argNumber_scan)
  have 2: "skipNumber (format q1, afterIndex q1) = (format q2, afterIndex q2)"
    unfolding q2_def by (simp add: doWidth_scan)
  have 3: "(if format q2 \<noteq> [] \<and> hd (format q2) = CHR ''.''
        then skipNumber (skipArgNumber (tl (format q2))) else (format q2, afterIndex q2))
      = (format q3, afterIndex q3)"
    unfolding q3_def by (simp add: doPrecision_scan)
  have 4: "format (argNumber (length a) q3) = fst (skipArgNumber (format q3))"
    using argNumber_scan [of "length a" q3] by (metis fst_conv)
  have "directiveArgs P a p = (if \<not> afterIndex q3 then argNumber (length a) q3 else q3)"
    by (simp add: directiveArgs_def Let_def q1_def q2_def q3_def)
  then show ?thesis
    unfolding toVerb_def 1 2 using 3 4 by (simp del: skipNumber_def)
qed

lemma skipArgNumber_suffix: "suffix (fst (skipArgNumber s)) s"
  by (auto simp: skipArgNumber_def suffix_drop split: prod.splits)

lemma skipNumber_suffix: "suffix (fst (skipNumber (s, after))) s"
  by (auto simp: skipNumber_def suffix_drop suffix_tl split: prod.splits)

lemma skip_bracket:
  "skipArgNumber ''[]'' = ('']'', False)"
  "skipNumber ('']'', af) = ('']'', af)"
  "skipArgNumber '']'' = ('']'', False)"
  by (simp_all add: skipArgNumber_def skipNumber_def parseArgNumber_def parsenum_def)

lemma directiveArgs_lift:
  assumes ne: "toVerb (format p) \<noteq> []"
    and br: "toVerb (format p) = '']'' \<longrightarrow> \<not> suffix ''[]'' (format p)"
  shows "directiveArgs P a (p\<lparr>buf := x @ buf p, format := format p @ [CHR 0x0A]\<rparr>)
     = (directiveArgs P a p)\<lparr>buf := x @ buf (directiveArgs P a p),
          format := format (directiveArgs P a p) @ [CHR 0x0A]\<rparr>"
proof -
  define q1 where "q1 = argNumber (length a) p"
  define q2 where "q2 = doWidth P a q1"
  define q3 where "q3 = doPrecision P a q2"
  define q4 where "q4 = (if \<not> afterIndex q3 then argNumber (length a) q3 else q3)"
  have s1: "skipArgNumber (format p) = (format q1, afterIndex q1)"
    unfolding q1_def by (simp add: argNumber_scan)
  have s2: "skipNumber (format q1, afterIndex q1) = (format q2, afterIndex q2)"
    unfolding q2_def by (simp add: doWidth_scan)
  have s3: "(if format q2 \<noteq> [] \<and> hd (format q2) = CHR ''.''
        then skipNumber (skipArgNumber (tl (format q2))) else (format q2, afterIndex q2))
      = (format q3, afterIndex q3)"
    unfolding q3_def by (simp add: doPrecision_scan)
  have s4: "format q4 = (if afterIndex q3 then format q3 else fst (skipArgNumber (format q3)))"
    using argNumber_scan [of "length a" q3] unfolding q4_def by (metis fst_conv)
  have d: "directiveArgs P a p = q4"
    by (simp add: directiveArgs_def Let_def q1_def q2_def q3_def q4_def)
  have tv: "toVerb (format p) = format q4"
    using directiveArgs_scan [of P a p] d by simp
  have su1: "suffix (format q1) (format p)"
    using skipArgNumber_suffix [of "format p"] s1 by simp
  have su2: "suffix (format q2) (format q1)"
    using skipNumber_suffix [of "format q1" "afterIndex q1"] s2 by simp
  have su3: "suffix (format q3) (format q2)"
  proof (cases "format q2 \<noteq> [] \<and> hd (format q2) = CHR ''.''")
    case True
    obtain u af where u: "skipArgNumber (tl (format q2)) = (u, af)" by force
    have "suffix u (tl (format q2))" using skipArgNumber_suffix [of "tl (format q2)"] u by simp
    moreover have "suffix (format q3) u"
      using skipNumber_suffix [of u af] s3 True u by simp
    ultimately show ?thesis
      using suffix_tl [of "format q2"] by (meson suffix_order.trans)
  next
    case False
    then show ?thesis using s3 by auto
  qed
  have su4: "suffix (format q4) (format q3)"
    using skipArgNumber_suffix [of "format q3"] s4 by auto
  have n4: "format q4 \<noteq> []" using ne tv by simp
  then have n3: "format q3 \<noteq> []" using su4 by auto
  then have n2: "format q2 \<noteq> []" using su3 by auto
  have b1: "format p \<noteq> ''[]''"
  proof
    assume e: "format p = ''[]''"
    then have "toVerb (format p) = '']''"
      by (simp add: toVerb_def skip_bracket del: skipNumber_def)
    then show False using br e by simp
  qed
  have b2: "format q2 \<noteq> ''.[]''"
  proof
    assume e: "format q2 = ''.[]''"
    then have "format q3 = '']''" "\<not> afterIndex q3"
      using s3 by (simp_all add: skip_bracket)
    then have "format q4 = '']''" using s4 by (simp add: skip_bracket)
    moreover have "suffix ''[]'' (format p)"
      using su1 su2 e by (metis suffix_ConsD suffix_order.trans)
    ultimately show False using br tv by simp
  qed
  have b3: "\<not> afterIndex q3 \<Longrightarrow> format q3 \<noteq> ''[]''"
  proof
    assume a: "\<not> afterIndex q3" and e: "format q3 = ''[]''"
    then have "format q4 = '']''" using s4 by (simp add: skip_bracket)
    moreover have "suffix ''[]'' (format p)"
      using su1 su2 su3 e by (metis suffix_order.trans)
    ultimately show False using br tv by simp
  qed
  have l1: "argNumber (length a) (p\<lparr>buf := x @ buf p, format := format p @ [CHR 0x0A]\<rparr>)
      = q1\<lparr>buf := x @ buf q1, format := format q1 @ [CHR 0x0A]\<rparr>"
    unfolding q1_def using b1 by (rule argNumber_lift)
  have l2: "doWidth P a (q1\<lparr>buf := x @ buf q1, format := format q1 @ [CHR 0x0A]\<rparr>)
      = q2\<lparr>buf := x @ buf q2, format := format q2 @ [CHR 0x0A]\<rparr>"
    unfolding q2_def using n2 [unfolded q2_def] by (rule doWidth_lift)
  have l3: "doPrecision P a (q2\<lparr>buf := x @ buf q2, format := format q2 @ [CHR 0x0A]\<rparr>)
      = q3\<lparr>buf := x @ buf q3, format := format q3 @ [CHR 0x0A]\<rparr>"
    unfolding q3_def using n3 [unfolded q3_def] b2 by (rule doPrecision_lift)
  have l4: "(if \<not> afterIndex q3
       then argNumber (length a) (q3\<lparr>buf := x @ buf q3, format := format q3 @ [CHR 0x0A]\<rparr>)
       else q3\<lparr>buf := x @ buf q3, format := format q3 @ [CHR 0x0A]\<rparr>)
      = q4\<lparr>buf := x @ buf q4, format := format q4 @ [CHR 0x0A]\<rparr>"
    using argNumber_lift [OF b3, of "length a" x] by (simp add: q4_def)
  have "directiveArgs P a (p\<lparr>buf := x @ buf p, format := format p @ [CHR 0x0A]\<rparr>)
      = q4\<lparr>buf := x @ buf q4, format := format q4 @ [CHR 0x0A]\<rparr>"
    using l4 by (auto simp: directiveArgs_def Let_def l1 l2 l3 split: if_splits)
  then show ?thesis unfolding d .
qed

lemma toVerb_Nil: "toVerb [] = []"
  by (simp add: toVerb_def skipArgNumber_def skipNumber_def parsenum_def)

lemma toVerb_letter:
  assumes "t \<noteq> []" "0x61 \<le> byte (hd t)" "byte (hd t) \<le> 0x7A"
  shows "toVerb t = t" "readVerb t = (int (byte (hd t)), 1)"
proof -
  obtain c u where t: "t = c # u" using assms(1) by (cases t) auto
  have c: "c \<noteq> CHR ''[''" "c \<noteq> CHR ''*''" "c \<noteq> CHR ''.''" "\<not> byte c \<le> 0x39"
    using assms(2) t by auto
  show "toVerb t = t"
    using c by (simp add: toVerb_def skipArgNumber_def skipNumber_def parsenum_def t)
  show "readVerb t = (int (byte (hd t)), 1)"
    using assms(3) by (simp add: readVerb_def RuneSelf_def)
qed

lemma doVerb_format: "format (doVerb P a p) = drop (snd (readVerb (format p))) (format p)"
  by (simp add: doVerb_def printVerb_def Let_def split: prod.splits)

lemma directive_lift:
  assumes t: "t = snd (flags clearflags (format p))"
    and ne: "toVerb t \<noteq> []"
    and br: "toVerb t = '']'' \<longrightarrow> \<not> suffix ''[]'' t"
  shows "\<exists>p'. directive P a p = (p', True)
     \<and> format p' = drop (snd (readVerb (toVerb t))) (toVerb t)
     \<and> directive P a (p\<lparr>buf := x @ buf p, format := format p @ [CHR 0x0A]\<rparr>)
         = (p'\<lparr>buf := x @ buf p', format := format p' @ [CHR 0x0A]\<rparr>, True)"
proof -
  obtain f where f: "flags clearflags (format p) = (f, t)"
    using t by (cases "flags clearflags (format p)") auto
  have f': "flags clearflags (format p @ [CHR 0x0A]) = (f, t @ [CHR 0x0A])"
    using flags_newline [of clearflags "format p"] f by simp
  have tn: "t \<noteq> []" using ne toVerb_Nil by auto
  then have hd: "hd (t @ [CHR 0x0A]) = hd t" "tl (t @ [CHR 0x0A]) = tl t @ [CHR 0x0A]"
    by simp_all
  show ?thesis
  proof (cases "0x61 \<le> byte (hd t) \<and> byte (hd t) \<le> 0x7A \<and> argNum p < length a")
    case True
    then have tv: "toVerb t = t" "readVerb t = (int (byte (hd t)), 1)"
      using toVerb_letter [OF tn] by simp_all
    have 1: "directive P a p
        = (printVerb P a (int (byte (hd t))) (p\<lparr>fmt := f, format := tl t\<rparr>), True)"
      using True tn by (simp add: directive_def f)
    have 2: "directive P a (p\<lparr>buf := x @ buf p, format := format p @ [CHR 0x0A]\<rparr>)
        = (printVerb P a (int (byte (hd t)))
            (p\<lparr>buf := x @ buf p, fmt := f, format := tl t @ [CHR 0x0A]\<rparr>), True)"
      using True tn by (simp add: directive_def f' hd)
    show ?thesis
      unfolding 1 2 tv
      by (simp add: printVerb_def Let_def drop_Suc)
  next
    case False
    define q where "q = directiveArgs P a (p\<lparr>fmt := f, format := t\<rparr>)"
    have fq: "format q = toVerb t"
      unfolding q_def using directiveArgs_scan [of P a "p\<lparr>fmt := f, format := t\<rparr>"] by simp
    have e: "p\<lparr>buf := x @ buf p, fmt := f, format := t @ [CHR 0x0A]\<rparr>
        = (p\<lparr>fmt := f, format := t\<rparr>)\<lparr>buf := x @ buf (p\<lparr>fmt := f, format := t\<rparr>),
            format := format (p\<lparr>fmt := f, format := t\<rparr>) @ [CHR 0x0A]\<rparr>"
      by (cases p) simp
    have q': "directiveArgs P a (p\<lparr>buf := x @ buf p, fmt := f, format := t @ [CHR 0x0A]\<rparr>)
        = q\<lparr>buf := x @ buf q, format := format q @ [CHR 0x0A]\<rparr>"
      unfolding q_def e
      using ne br by (intro directiveArgs_lift) simp_all
    have 1: "directive P a p = (doVerb P a q, True)"
      using ne fq by (simp add: directive_def f q_def [symmetric] Let_def False tn)
    have e2: "p\<lparr>buf := x @ buf p, format := format p @ [CHR 0x0A]\<rparr>
          \<lparr>fmt := f, format := t @ [CHR 0x0A]\<rparr>
        = p\<lparr>buf := x @ buf p, fmt := f, format := t @ [CHR 0x0A]\<rparr>"
      by (cases p) simp
    have 2: "directive P a (p\<lparr>buf := x @ buf p, format := format p @ [CHR 0x0A]\<rparr>)
        = (doVerb P a (q\<lparr>buf := x @ buf q, format := format q @ [CHR 0x0A]\<rparr>), True)"
      using ne fq unfolding directive_def
      by (simp add: f' hd e2 q' Let_def False tn del: pp.simps)
    have 3: "doVerb P a (q\<lparr>buf := x @ buf q, format := format q @ [CHR 0x0A]\<rparr>)
        = (doVerb P a q)\<lparr>buf := x @ buf (doVerb P a q),
             format := format (doVerb P a q) @ [CHR 0x0A]\<rparr>"
      using ne fq by (intro doVerb_lift) simp
    show ?thesis
      unfolding 1 2 3 using doVerb_format [of P a q] fq by simp
  qed
qed

subsection \<open>The loop\<close>

lemma formatLoop_Nil: "format p = [] \<Longrightarrow> formatLoop P a p = p"
  by (subst formatLoop.simps) simp

lemma formatLoop_literal_step:
  "format p = c # s \<Longrightarrow> c \<noteq> CHR ''%'' \<Longrightarrow>
   formatLoop P a p = formatLoop P a (p\<lparr>goodArgNum := True, buf := buf p @ [c], format := s\<rparr>)"
  by (subst formatLoop.simps) simp

lemma formatLoop_directive_step:
  "format p = CHR ''%'' # s \<Longrightarrow> directive P a (p\<lparr>goodArgNum := True, format := s\<rparr>) = (p', again) \<Longrightarrow>
   formatLoop P a p = (if again then formatLoop P a p' else p')"
  by (subst formatLoop.simps) simp

lemma formatLoop_literal:
  "CHR ''%'' \<notin> set pre \<Longrightarrow>
   formatLoop P a (p\<lparr>format := pre @ s\<rparr>)
     = formatLoop P a (p\<lparr>buf := buf p @ pre, goodArgNum := (goodArgNum p \<or> pre \<noteq> []),
          format := s\<rparr>)"
proof (induction pre arbitrary: p)
  case Nil
  have "p\<lparr>buf := buf p @ [], goodArgNum := (goodArgNum p \<or> [] \<noteq> []), format := s\<rparr>
      = p\<lparr>format := [] @ s\<rparr>"
    by (cases p) simp
  then show ?case by simp
next
  case (Cons c pre)
  define p1 where "p1 = p\<lparr>goodArgNum := True, buf := buf p @ [c]\<rparr>"
  have c: "c \<noteq> CHR ''%''" "CHR ''%'' \<notin> set pre" using Cons.prems by auto
  have e1: "p\<lparr>format := (c # pre) @ s\<rparr>
        \<lparr>goodArgNum := True, buf := buf (p\<lparr>format := (c # pre) @ s\<rparr>) @ [c], format := pre @ s\<rparr>
      = p1\<lparr>format := pre @ s\<rparr>"
    by (cases p) (simp add: p1_def)
  have 1: "formatLoop P a (p\<lparr>format := (c # pre) @ s\<rparr>) = formatLoop P a (p1\<lparr>format := pre @ s\<rparr>)"
    using formatLoop_literal_step [of "p\<lparr>format := (c # pre) @ s\<rparr>" c "pre @ s" P a] c(1)
    unfolding e1 by simp
  have e2: "p1\<lparr>buf := buf p1 @ pre, goodArgNum := (goodArgNum p1 \<or> pre \<noteq> []), format := s\<rparr>
      = p\<lparr>buf := buf p @ c # pre, goodArgNum := (goodArgNum p \<or> c # pre \<noteq> []), format := s\<rparr>"
    by (cases p) (simp add: p1_def)
  show ?case
    unfolding 1 Cons.IH [OF c(2), of p1] e2 ..
qed

lemma readVerb_bracket: "readVerb '']'' = (0x5D, 1)"
  by (simp add: readVerb_def RuneSelf_def)

lemma formatLoop_lift:
  "\<not> unfinished (format p) \<Longrightarrow>
   formatLoop P a (p\<lparr>buf := x @ buf p, goodArgNum := g, format := format p @ [CHR 0x0A]\<rparr>)
     = (formatLoop P a p)\<lparr>buf := x @ buf (formatLoop P a p) @ [CHR 0x0A], goodArgNum := True\<rparr>"
proof (induction P a p arbitrary: x g rule: formatLoop.induct)
  case (1 P a p)
  define L where "L = p\<lparr>buf := x @ buf p, goodArgNum := g, format := format p @ [CHR 0x0A]\<rparr>"
  show ?case
  proof (cases "format p")
    case Nil
    have fl: "format L = [CHR 0x0A]" using Nil by (simp add: L_def)
    have e: "L\<lparr>goodArgNum := True, buf := buf L @ [CHR 0x0A], format := []\<rparr>
        = p\<lparr>buf := x @ buf p @ [CHR 0x0A], goodArgNum := True\<rparr>"
      using Nil by (cases p) (simp add: L_def)
    have "formatLoop P a L = formatLoop P a (L\<lparr>goodArgNum := True, buf := buf L @ [CHR 0x0A], format := []\<rparr>)"
      using formatLoop_literal_step [OF fl, of P a] by simp
    also have "\<dots> = L\<lparr>goodArgNum := True, buf := buf L @ [CHR 0x0A], format := []\<rparr>"
      by (rule formatLoop_Nil) simp
    finally show ?thesis
      unfolding e L_def [symmetric] using Nil by (simp add: formatLoop_Nil)
  next
    case (Cons c s)
    show ?thesis
    proof (cases "c = CHR ''%''")
      case False
      define p1 where "p1 = p\<lparr>goodArgNum := True, buf := buf p @ [c], format := s\<rparr>"
      have nu: "\<not> unfinished (format p1)" using 1(3) Cons False by (simp add: p1_def)
      have fl: "format L = c # s @ [CHR 0x0A]" using Cons by (simp add: L_def)
      have e: "L\<lparr>goodArgNum := True, buf := buf L @ [c], format := s @ [CHR 0x0A]\<rparr>
          = p1\<lparr>buf := x @ buf p1, goodArgNum := True, format := format p1 @ [CHR 0x0A]\<rparr>"
        by (cases p) (simp add: L_def p1_def)
      have "formatLoop P a L
          = formatLoop P a (p1\<lparr>buf := x @ buf p1, goodArgNum := True, format := format p1 @ [CHR 0x0A]\<rparr>)"
        using formatLoop_literal_step [OF fl False, of P a] unfolding e .
      also have "\<dots> = (formatLoop P a p1)\<lparr>buf := x @ buf (formatLoop P a p1) @ [CHR 0x0A],
          goodArgNum := True\<rparr>"
        using 1(1) [OF Cons False, where x = x and g = True] nu unfolding p1_def by simp
      finally show ?thesis
        unfolding L_def [symmetric]
        using formatLoop_literal_step [OF Cons False, of P a] by (simp add: p1_def)
    next
      case True
      define t where "t = snd (flags clearflags s)"
      define q where "q = p\<lparr>goodArgNum := True, format := s\<rparr>"
      have u: "unfinished (format p) =
          (case toVerb t of [] \<Rightarrow> True
           | v # t' \<Rightarrow> let rest = drop (snd (readVerb (v # t'))) (v # t')
               in if rest = [] then suffix ''[]'' s else unfinished rest)"
        using Cons True by (simp add: t_def)
      have ne: "toVerb t \<noteq> []" using 1(3) u by (auto split: list.splits)
      have rest: "if drop (snd (readVerb (toVerb t))) (toVerb t) = [] then \<not> suffix ''[]'' s
          else \<not> unfinished (drop (snd (readVerb (toVerb t))) (toVerb t))"
        using 1(3) u ne by (cases "toVerb t") (auto simp: Let_def split: if_splits)
      have br: "toVerb t = '']'' \<longrightarrow> \<not> suffix ''[]'' t"
      proof
        assume e: "toVerb t = '']''"
        then have "\<not> suffix ''[]'' s" using rest by (simp add: readVerb_bracket)
        then show "\<not> suffix ''[]'' t"
          using flags_suffix [of clearflags s] unfolding t_def by (meson suffix_order.trans)
      qed
      have tq: "t = snd (flags clearflags (format q))" by (simp add: t_def q_def)
      obtain p' where p':
        "directive P a q = (p', True)"
        "format p' = drop (snd (readVerb (toVerb t))) (toVerb t)"
        "directive P a (q\<lparr>buf := x @ buf q, format := format q @ [CHR 0x0A]\<rparr>)
           = (p'\<lparr>buf := x @ buf p', format := format p' @ [CHR 0x0A]\<rparr>, True)"
        using directive_lift [OF tq ne br, of P a x] by auto
      have nu: "\<not> unfinished (format p')"
        using rest p'(2) by (auto split: if_splits)
      have l: "formatLoop P a p = formatLoop P a p'"
        using formatLoop_directive_step [of p s P a p' True] p'(1) Cons True by (simp add: q_def)
      have fl: "format L = CHR ''%'' # s @ [CHR 0x0A]" using Cons True by (simp add: L_def)
      have e: "L\<lparr>goodArgNum := True, format := s @ [CHR 0x0A]\<rparr>
          = q\<lparr>buf := x @ buf q, format := format q @ [CHR 0x0A]\<rparr>"
        by (cases p) (simp add: L_def q_def)
      have e': "p'\<lparr>buf := x @ buf p', format := format p' @ [CHR 0x0A]\<rparr>
          = p'\<lparr>buf := x @ buf p', goodArgNum := goodArgNum p', format := format p' @ [CHR 0x0A]\<rparr>"
        by (cases p') simp
      have "formatLoop P a L
          = formatLoop P a (p'\<lparr>buf := x @ buf p', format := format p' @ [CHR 0x0A]\<rparr>)"
        using formatLoop_directive_step [OF fl p'(3) [folded e]] by simp
      also have "\<dots> = (formatLoop P a p')\<lparr>buf := x @ buf (formatLoop P a p') @ [CHR 0x0A],
          goodArgNum := True\<rparr>"
        unfolding e'
        using 1(2) [where x = p' and y = True and xa = x and g = "goodArgNum p'", OF Cons]
          nu True p'(1)
        by (simp add: q_def)
      finally show ?thesis unfolding l L_def [symmetric] .
    qed
  qed
qed

subsection \<open>The envelope\<close>

lemma digit_not_percent: "d < 10 \<Longrightarrow> char_of (48 + d :: nat) \<noteq> CHR ''%''"
proof
  assume "d < 10" "char_of (48 + d) = CHR ''%''"
  then have "byte (char_of (48 + d)) = byte CHR ''%''" by simp
  then show False using \<open>d < 10\<close> by simp
qed

lemma digits_no_percent: "CHR ''%'' \<notin> set (digits n)"
proof (induction n rule: digits.induct)
  case (1 n)
  show ?case
  proof (cases "n < 10")
    case True
    then show ?thesis
      using digit_not_percent [of n] by (subst digits.simps) auto
  next
    case False
    then show ?thesis
      using 1 digit_not_percent [of "n mod 10"] by (subst digits.simps) auto
  qed
qed

lemma fmtInteger_no_percent: "CHR ''%'' \<notin> set (fmtInteger n)"
  by (simp add: fmtInteger_def digits_no_percent)

lemma plain_clearflags: "plain clearflags"
  by (simp add: plain_def clearflags_def)

lemma Sprintf_envelope:
  "Sprintf P ''server error %d: %s'' [AnyInt code, AnyString form]
     = ''server error '' @ fmtInteger code @ '': '' @ form"
  "Sprintf P ''client error %d: %s'' [AnyInt code, AnyString form]
     = ''client error '' @ fmtInteger code @ '': '' @ form"
  by (simp_all add: Sprintf_def doPrintf_def formatLoop.simps directive_def printVerb_def
      printArg_def plain_clearflags Let_def)

lemma doPrintf_loop:
  "reordered (doPrintf P s a) = reordered (formatLoop P a \<lparr>buf = [], fmt = clearflags,
       reordered = False, goodArgNum = False, argNum = 0, afterIndex = False, format = s\<rparr>)"
  "argNum (doPrintf P s a) = argNum (formatLoop P a \<lparr>buf = [], fmt = clearflags,
       reordered = False, goodArgNum = False, argNum = 0, afterIndex = False, format = s\<rparr>)"
  by (simp_all add: doPrintf_def Let_def)

lemma Sprintf_line:
  assumes "CHR ''%'' \<notin> set pre" "\<not> unfinished form"
    "reordered (doPrintf P form a) \<or> length a \<le> argNum (doPrintf P form a)"
  shows "Sprintf P ((pre @ form) @ [CHR 0x0A]) a = pre @ Sprintf P form a @ [CHR 0x0A]"
proof -
  define p where "p = \<lparr>buf = [], fmt = clearflags, reordered = False, goodArgNum = False,
      argNum = 0, afterIndex = False, format = form\<rparr>"
  define q where "q = formatLoop P a p"
  have used: "\<not> (\<not> reordered q \<and> argNum q < length a)"
    using assms(3) unfolding doPrintf_loop q_def p_def by auto
  have 1: "doPrintf P form a = q"
    unfolding doPrintf_def Let_def p_def [symmetric] q_def [symmetric] using used by auto
  have e: "\<lparr>buf = [], fmt = clearflags, reordered = False, goodArgNum = False,
        argNum = 0, afterIndex = False, format = pre @ form @ [CHR 0x0A]\<rparr>
      = p\<lparr>format := pre @ form @ [CHR 0x0A]\<rparr>"
    by (simp add: p_def)
  have e': "p\<lparr>buf := buf p @ pre, goodArgNum := (goodArgNum p \<or> pre \<noteq> []),
        format := form @ [CHR 0x0A]\<rparr>
      = p\<lparr>buf := pre @ buf p, goodArgNum := (pre \<noteq> []), format := format p @ [CHR 0x0A]\<rparr>"
    by (simp add: p_def)
  have "formatLoop P a (p\<lparr>format := pre @ form @ [CHR 0x0A]\<rparr>)
      = q\<lparr>buf := pre @ buf q @ [CHR 0x0A], goodArgNum := True\<rparr>"
    unfolding formatLoop_literal [OF assms(1)] e' q_def
    using assms(2) by (intro formatLoop_lift) (simp add: p_def)
  then have 2: "doPrintf P (pre @ form @ [CHR 0x0A]) a
      = q\<lparr>buf := pre @ buf q @ [CHR 0x0A], goodArgNum := True\<rparr>"
    unfolding doPrintf_def e Let_def using used by auto
  show ?thesis by (simp add: Sprintf_def 1 2)
qed

lemma WriteHTTP_result:
  assumes "100 \<le> code" "code \<le> 999" "\<not> wroteHeader w"
  shows "WriteHTTP P w code form elems =
     Some (Returns (w\<lparr>HeaderMap := (HeaderMap w)(''Content-Type'' \<mapsto> [''text/plain; charset=utf-8'']),
        snapHeader := (HeaderMap w)(''Content-Type'' \<mapsto> [''text/plain; charset=utf-8'']),
        Code := code, Body := Body w @ Sprintf P (form @ [CHR 0x0A]) elems, wroteHeader := True\<rparr>))"
  using assms
  by (simp add: WriteHTTP_def WriteHeader_def Header_Set_def Fprintf_def Write_def Sprintf_def)

lemma fmtInteger_literals: "fmtInteger 500 = ''500''" "fmtInteger 400 = ''400''"
  by code_simp+

lemma WriteError_NewRecorder:
  assumes "100 \<le> code" "code \<le> 999"
  shows "WriteError P NewRecorder code form elems =
     Some (Returns \<lparr>Code = code,
        HeaderMap = [''Content-Type'' \<mapsto> [''text/plain; charset=utf-8'']],
        snapHeader = [''Content-Type'' \<mapsto> [''text/plain; charset=utf-8'']],
        Body = buf (doPrintf P
          (Sprintf P ''server error %d: %s'' [AnyInt code, AnyString form] @ [CHR 0x0A]) elems),
        wroteHeader = True\<rparr>)"
  using assms
  by (simp add: WriteError_def WriteHTTP_def WriteHeader_def Header_Set_def Fprintf_def
      Write_def NewRecorder_def del: append.simps)

lemma WriteError_written:
  "WriteError P (NewRecorder\<lparr>wroteHeader := True\<rparr>) code form elems =
     Some (Returns \<lparr>Code = 200,
        HeaderMap = [''Content-Type'' \<mapsto> [''text/plain; charset=utf-8'']],
        snapHeader = Map.empty,
        Body = buf (doPrintf P
          (Sprintf P ''server error %d: %s'' [AnyInt code, AnyString form] @ [CHR 0x0A]) elems),
        wroteHeader = True\<rparr>)"
  by (simp add: WriteError_def WriteHTTP_def WriteHeader_def Header_Set_def Fprintf_def
      Write_def NewRecorder_def del: append.simps)

lemma WriteError_panics:
  "code < 100 \<Longrightarrow> WriteError P NewRecorder code form elems = Some Panics"
  by (simp add: WriteError_def WriteHTTP_def WriteHeader_def Header_Set_def NewRecorder_def)

lemma Sprintf_tests:
  "Sprintf plain_printer ''server error %d: %s'' [AnyInt 500, AnyString ''test''] = ''server error 500: test''"
  "Sprintf plain_printer ''server error %d: %s'' [AnyInt 500, AnyString ''100%''] = ''server error 500: 100%''"
  "Sprintf plain_printer ''server error %d: %s'' [AnyInt 500, AnyString ''%[]''] = ''server error 500: %[]''"
  "Sprintf plain_printer ''server error %d: %s'' [AnyInt 500, AnyString ''%s''] = ''server error 500: %s''"
  "buf (doPrintf plain_printer (''server error 500: test'' @ [CHR 0x0A]) [AnyString ''x''])
     = ''server error 500: test'' @ [CHR 0x0A] @ ''%!(EXTRA string=x)''"
  "buf (doPrintf plain_printer (''server error 500: 100%'' @ [CHR 0x0A]) [])
     = ''server error 500: 100%!'' @ [CHR 0x0A] @ ''(MISSING)''"
  "buf (doPrintf plain_printer (''server error 500: %[]'' @ [CHR 0x0A]) [])
     = ''server error 500: %!'' @ [CHR 0x0A] @ ''(BADINDEX)''"
  "buf (doPrintf plain_printer (''server error 500: %s'' @ [CHR 0x0A]) [AnyString ''test''])
     = ''server error 500: test'' @ [CHR 0x0A]"
  "Sprintf plain_printer ''test'' [AnyString ''x''] = ''test%!(EXTRA string=x)''"
  "Sprintf plain_printer ''100%'' [] = ''100%!(NOVERB)''"
  "Sprintf plain_printer ''%s'' [AnyString ''test''] = ''test''"
  "Sprintf plain_printer ''%5d'' [AnyInt 3] = ''    3''"
  by code_simp+

lemma unfinished_tests:
  "\<not> unfinished ''%s''" "\<not> unfinished ''%5d''"
  "length [AnyString ''test''] \<le> argNum (doPrintf plain_printer ''%s'' [AnyString ''test''])"
  "length [AnyInt 3] \<le> argNum (doPrintf plain_printer ''%5d'' [AnyInt 3])"
  "unfinished ''100%''" "unfinished ''%5''" "unfinished ''%[]''" "unfinished ''%99999999d''"
  "\<not> unfinished ''100%%''" "\<not> unfinished ''%[1]d''" "\<not> unfinished ''%-5.2s''"
  by code_simp+

text \<open>
  Claim C5, as stated: for every status code, format string and arguments the body is
  the envelope prefix, the formatted message and one newline, and the status code is
  written. It fails in five ways. The newline is appended to the format and not to the
  formatted text: with an argument too many \<open>fmt\<close> reports it after the newline, after
  a format that ends in \<open>%\<close> the newline is read as the verb, and after a format that
  ends in the argument index \<open>[]\<close> the newline is the verb of that directive. Further,
  \<open>WriteHeader\<close> panics on a status code that has not three digits, and on a writer
  whose header is already written the status code stays what it was.
\<close>

theorem WriteError_newline_misplaced:
  "WriteError plain_printer NewRecorder 500 ''test'' [AnyString ''x''] =
       Some (Returns \<lparr>Code = 500,
          HeaderMap = [''Content-Type'' \<mapsto> [''text/plain; charset=utf-8'']],
          snapHeader = [''Content-Type'' \<mapsto> [''text/plain; charset=utf-8'']],
          Body = ''server error 500: test'' @ [CHR 0x0A] @ ''%!(EXTRA string=x)'',
          wroteHeader = True\<rparr>)
   \<and> Sprintf plain_printer ''test'' [AnyString ''x''] = ''test%!(EXTRA string=x)''
   \<and> ''server error 500: test'' @ [CHR 0x0A] @ ''%!(EXTRA string=x)''
       \<noteq> ''server error 500: '' @ ''test%!(EXTRA string=x)'' @ [CHR 0x0A]
   \<and> WriteError plain_printer NewRecorder 500 ''100%'' [] =
       Some (Returns \<lparr>Code = 500,
          HeaderMap = [''Content-Type'' \<mapsto> [''text/plain; charset=utf-8'']],
          snapHeader = [''Content-Type'' \<mapsto> [''text/plain; charset=utf-8'']],
          Body = ''server error 500: 100%!'' @ [CHR 0x0A] @ ''(MISSING)'',
          wroteHeader = True\<rparr>)
   \<and> Sprintf plain_printer ''100%'' [] = ''100%!(NOVERB)''
   \<and> WriteError plain_printer NewRecorder 500 ''%[]'' [] =
       Some (Returns \<lparr>Code = 500,
          HeaderMap = [''Content-Type'' \<mapsto> [''text/plain; charset=utf-8'']],
          snapHeader = [''Content-Type'' \<mapsto> [''text/plain; charset=utf-8'']],
          Body = ''server error 500: %!'' @ [CHR 0x0A] @ ''(BADINDEX)'',
          wroteHeader = True\<rparr>)
   \<and> WriteError plain_printer NewRecorder 42 ''%s'' [AnyString ''test''] = Some Panics
   \<and> WriteError plain_printer (NewRecorder\<lparr>wroteHeader := True\<rparr>) 500 ''%s''
         [AnyString ''test''] =
       Some (Returns \<lparr>Code = 200,
          HeaderMap = [''Content-Type'' \<mapsto> [''text/plain; charset=utf-8'']],
          snapHeader = Map.empty,
          Body = ''server error 500: test'' @ [CHR 0x0A], wroteHeader = True\<rparr>)"
proof -
  have c: "(100::int) \<le> 500" "(500::int) \<le> 999" "(42::int) < 100" by simp_all
  have n: "''server error 500: test'' @ [CHR 0x0A] @ ''%!(EXTRA string=x)''
       \<noteq> ''server error 500: '' @ ''test%!(EXTRA string=x)'' @ [CHR 0x0A]"
    by simp
  show ?thesis
    unfolding WriteError_NewRecorder [OF c(1,2)] WriteError_written WriteError_panics [OF c(3)]
      Sprintf_tests
    using n by blast
qed

text \<open>
  Claim C5, amended. For a status code from 100 to 999, a response recorder whose header
  is not yet written, a format that is not cut short in a directive and arguments of
  which \<open>fmt\<close> reports none as left over (an argument index was used, or the directives
  took them all), \<open>WriteError\<close> sets the content type, writes the status code and
  writes the body \<open>"server error <code>: <message>\n"\<close>, and \<open>WriteFailure\<close> does the
  same with \<open>"client error <code>: <message>\n"\<close>, where \<open><message>\<close> is the formatted
  caller content \<open>Sprintf(form, elems...)\<close>; \<open>WriteError(w, 500, "%s", "test")\<close> yields
  status 500 and the body \<open>"server error 500: test\n"\<close>. The directives may carry flags,
  a width, a precision and argument indexes.
\<close>

theorem WriteError_envelope:
  assumes "100 \<le> code" "code \<le> 999" "\<not> wroteHeader w" "\<not> unfinished form"
    "reordered (doPrintf P form elems) \<or> length elems \<le> argNum (doPrintf P form elems)"
  shows "WriteError P w code form elems =
       Some (Returns (w\<lparr>HeaderMap := (HeaderMap w)(''Content-Type'' \<mapsto> [''text/plain; charset=utf-8'']),
          snapHeader := (HeaderMap w)(''Content-Type'' \<mapsto> [''text/plain; charset=utf-8'']),
          Code := code,
          Body := Body w @ ''server error '' @ fmtInteger code @ '': '' @ Sprintf P form elems
            @ [CHR 0x0A],
          wroteHeader := True\<rparr>))
   \<and> WriteFailure P w code form elems =
       Some (Returns (w\<lparr>HeaderMap := (HeaderMap w)(''Content-Type'' \<mapsto> [''text/plain; charset=utf-8'']),
          snapHeader := (HeaderMap w)(''Content-Type'' \<mapsto> [''text/plain; charset=utf-8'']),
          Code := code,
          Body := Body w @ ''client error '' @ fmtInteger code @ '': '' @ Sprintf P form elems
            @ [CHR 0x0A],
          wroteHeader := True\<rparr>))"
proof -
  have s: "CHR ''%'' \<notin> set (''server error '' @ fmtInteger code @ '': '')"
    and c: "CHR ''%'' \<notin> set (''client error '' @ fmtInteger code @ '': '')"
    using fmtInteger_no_percent [of code] by simp_all
  note ls = Sprintf_line [OF s assms(4,5)]
  note lc = Sprintf_line [OF c assms(4,5)]
  have we: "WriteError P w code form elems =
      WriteHTTP P w code ((''server error '' @ fmtInteger code @ '': '') @ form) elems"
    by (simp add: WriteError_def Sprintf_envelope)
  have wf: "WriteFailure P w code form elems =
      WriteHTTP P w code ((''client error '' @ fmtInteger code @ '': '') @ form) elems"
    by (simp add: WriteFailure_def Sprintf_envelope)
  show ?thesis
    unfolding we wf WriteHTTP_result [OF assms(1,2,3)] ls lc by simp
qed

theorem WriteError_envelope_witness:
  "\<not> wroteHeader NewRecorder
   \<and> \<not> unfinished ''%s''
   \<and> length [AnyString ''test''] \<le> argNum (doPrintf plain_printer ''%s'' [AnyString ''test''])
   \<and> WriteError plain_printer NewRecorder 500 ''%s'' [AnyString ''test''] =
       Some (Returns \<lparr>Code = 500,
          HeaderMap = [''Content-Type'' \<mapsto> [''text/plain; charset=utf-8'']],
          snapHeader = [''Content-Type'' \<mapsto> [''text/plain; charset=utf-8'']],
          Body = ''server error 500: test'' @ [CHR 0x0A], wroteHeader = True\<rparr>)
   \<and> WriteFailure plain_printer NewRecorder 400 ''%s'' [AnyString ''test''] =
       Some (Returns \<lparr>Code = 400,
          HeaderMap = [''Content-Type'' \<mapsto> [''text/plain; charset=utf-8'']],
          snapHeader = [''Content-Type'' \<mapsto> [''text/plain; charset=utf-8'']],
          Body = ''client error 400: test'' @ [CHR 0x0A], wroteHeader = True\<rparr>)
   \<and> \<not> unfinished ''%5d''
   \<and> length [AnyInt 3] \<le> argNum (doPrintf plain_printer ''%5d'' [AnyInt 3])
   \<and> WriteError plain_printer NewRecorder 500 ''%5d'' [AnyInt 3] =
       Some (Returns \<lparr>Code = 500,
          HeaderMap = [''Content-Type'' \<mapsto> [''text/plain; charset=utf-8'']],
          snapHeader = [''Content-Type'' \<mapsto> [''text/plain; charset=utf-8'']],
          Body = ''server error 500:     3'' @ [CHR 0x0A], wroteHeader = True\<rparr>)"
proof -
  have w: "\<not> wroteHeader NewRecorder" by (simp add: NewRecorder_def)
  note u = unfinished_tests
  show ?thesis
    using WriteError_envelope [OF _ _ w u(1) disjI2 [OF u(3)], of 500]
      WriteError_envelope [OF _ _ w u(1) disjI2 [OF u(3)], of 400]
      WriteError_envelope [OF _ _ w u(2) disjI2 [OF u(4)], of 500] w u
    by (simp add: NewRecorder_def fmtInteger_literals Sprintf_tests)
qed

end
